theory Spec2Isabelle
  imports Complex_Main "HOL-Library.Word"
begin

unbundle bit_operations_syntax


section \<open>Audio format conversion (AudioProcessor, format conversion part)\<close>

text \<open>
  A JavaScript number is modelled by the real number it denotes; NaN and the infinities
  are outside the model. An element of a \<open>Float32Array\<close> is a real that is a 32-bit
  float (\<open>is_float32\<close> below), and storing a number in a \<open>Float32Array\<close> rounds it to
  the nearest 32-bit float. An \<open>Int16Array\<close> element is a \<open>16 word\<close>, a \<open>Uint8Array\<close>
  element an \<open>8 word\<close>, and a JavaScript binary string (every code unit below 256) is
  a \<open>string\<close>, whose characters are 8-bit.
\<close>

type_synonym int16 = "16 word"
type_synonym uint8 = "8 word"

datatype js_error = InvalidCharacterError | RangeError

text \<open>\<open>Math.max(-1, Math.min(1, x))\<close>\<close>

definition clamp_sample :: "real \<Rightarrow> real" where
  "clamp_sample x = max (- 1) (min 1 x)"

text \<open>
  \<open>s < 0 ? s * 0x8000 : s * 0x7fff\<close>. For a 32-bit float \<open>s\<close> the product has at most
  39 significant bits, so the double-precision multiplication is exact.
\<close>

definition scale_sample :: "real \<Rightarrow> real" where
  "scale_sample s = (if s < 0 then s * 32768 else s * 32767)"

text \<open>
  \<open>DataView.setInt16\<close> converts its argument with ToInt16: the number is truncated
  towards zero and then reduced modulo \<open>2 ^ 16\<close> into the signed range.
\<close>

definition js_trunc :: "real \<Rightarrow> int" where
  "js_trunc v = (if v < 0 then \<lceil>v\<rceil> else \<lfloor>v\<rfloor>)"

definition toInt16 :: "real \<Rightarrow> int16" where
  "toInt16 v = word_of_int (js_trunc v)"

text \<open>The value handed to \<open>setInt16\<close> for one sample, and the 16-bit value it stores.\<close>

definition pcm_val :: "real \<Rightarrow> real" where
  "pcm_val x = scale_sample (clamp_sample x)"

definition pcm_word :: "real \<Rightarrow> int16" where
  "pcm_word x = toInt16 (pcm_val x)"

text \<open>\<open>view.setInt16(i * 2, val, true)\<close>: low byte first.\<close>

definition int16_bytes :: "int16 \<Rightarrow> uint8 list" where
  "int16_bytes w = [ucast w, ucast (drop_bit 8 w)]"

definition pcm16_bytes :: "real list \<Rightarrow> uint8 list" where
  "pcm16_bytes xs = concat (map (\<lambda>x. int16_bytes (pcm_word x)) xs)"

text \<open>\<open>String.fromCharCode\<close> on one byte, and \<open>charCodeAt\<close> back.\<close>

definition fromCharCode :: "uint8 \<Rightarrow> char" where
  "fromCharCode b = char_of (unat b)"

definition charCodeAt :: "char \<Rightarrow> uint8" where
  "charCodeAt c = of_nat (of_char c)"

text \<open>The loop that builds the binary string in chunks of \<open>0x8000\<close> bytes.\<close>

function binary_of_bytes :: "uint8 list \<Rightarrow> string" where
  "binary_of_bytes bs =
     (if bs = [] then []
      else map fromCharCode (take 32768 bs) @ binary_of_bytes (drop 32768 bs))"
  by pat_completeness auto
termination
  by (relation "measure length") auto

declare binary_of_bytes.simps [simp del]

subsection \<open>The platform's base64 functions\<close>

text \<open>
  \<open>btoa\<close> and \<open>atob\<close> are built into the browser. They are modelled after their
  definition: \<open>btoa\<close> is base64 with padding over the alphabet of RFC 4648, \<open>atob\<close> is the
  forgiving decoder (ASCII whitespace is removed, padding is optional, a wrong character
  or a length of 1 modulo 4 raises InvalidCharacterError).
\<close>

definition b64_alphabet :: string where
  "b64_alphabet = ''ABCDEFGHIJKLMNOPQRSTUVWXYZabcdefghijklmnopqrstuvwxyz0123456789+/''"

definition b64_char :: "nat \<Rightarrow> char" where
  "b64_char k = b64_alphabet ! k"

fun index_of :: "char \<Rightarrow> string \<Rightarrow> nat option" where
  "index_of c [] = None"
| "index_of c (d # ds) = (if c = d then Some 0 else map_option Suc (index_of c ds))"

definition b64_index :: "char \<Rightarrow> nat option" where
  "b64_index c = index_of c b64_alphabet"

fun bytes_sextets :: "nat list \<Rightarrow> nat list" where
  "bytes_sextets (a # b # c # rest) =
     [a div 4, (a mod 4) * 16 + b div 16, (b mod 16) * 4 + c div 64, c mod 64]
       @ bytes_sextets rest"
| "bytes_sextets [a, b] = [a div 4, (a mod 4) * 16 + b div 16, (b mod 16) * 4]"
| "bytes_sextets [a] = [a div 4, (a mod 4) * 16]"
| "bytes_sextets [] = []"

definition btoa :: "string \<Rightarrow> string" where
  "btoa s = map b64_char (bytes_sextets (map of_char s))
              @ replicate ((3 - length s mod 3) mod 3) (CHR ''='')"

definition is_ascii_whitespace :: "char \<Rightarrow> bool" where
  "is_ascii_whitespace c = (of_char c \<in> {9, 10, 12, 13, 32 :: nat})"

definition strip_padding :: "string \<Rightarrow> string" where
  "strip_padding d =
     (let n = length d in
      if 2 \<le> n \<and> drop (n - 2) d = ''=='' then take (n - 2) d
      else if 1 \<le> n \<and> drop (n - 1) d = ''='' then take (n - 1) d
      else d)"

fun sextets_bytes :: "nat list \<Rightarrow> nat list" where
  "sextets_bytes (p # q # r # s # rest) =
     [p * 4 + q div 16, (q mod 16) * 16 + r div 4, (r mod 4) * 64 + s]
       @ sextets_bytes rest"
| "sextets_bytes [p, q, r] = [p * 4 + q div 16, (q mod 16) * 16 + r div 4]"
| "sextets_bytes [p, q] = [p * 4 + q div 16]"
| "sextets_bytes _ = []"

fun those_list :: "'a option list \<Rightarrow> 'a list option" where
  "those_list [] = Some []"
| "those_list (None # _) = None"
| "those_list (Some x # xs) = map_option ((#) x) (those_list xs)"

definition atob :: "string \<Rightarrow> js_error + string" where
  "atob data =
     (let d1 = filter (\<lambda>c. \<not> is_ascii_whitespace c) data;
          d2 = (if length d1 mod 4 = 0 then strip_padding d1 else d1)
      in if length d2 mod 4 = 1 then Inl InvalidCharacterError
         else case those_list (map b64_index d2) of
                None \<Rightarrow> Inl InvalidCharacterError
              | Some sx \<Rightarrow> Inr (map char_of (sextets_bytes sx)))"

subsection \<open>\<open>float32ToBase64PCM16\<close> and \<open>base64PCM16ToFloat32\<close>\<close>

definition float32ToBase64PCM16 :: "real list \<Rightarrow> string" where
  "float32ToBase64PCM16 float32Array = btoa (binary_of_bytes (pcm16_bytes float32Array))"

text \<open>
  \<open>new Int16Array(bytes.buffer)\<close> views the bytes in pairs, in the byte order of the
  host, taken to be little-endian as on every platform the browser runs on; it raises
  RangeError when the number of bytes is odd.
\<close>

fun int16_view :: "uint8 list \<Rightarrow> int16 list" where
  "int16_view (lo # hi # rest) = (push_bit 8 (ucast hi) OR ucast lo) # int16_view rest"
| "int16_view _ = []"

text \<open>
  Binary floating point. \<open>round_float p\<close> rounds a real to the nearest number with a
  significand of \<open>p\<close> bits, ties to the even significand: \<open>float_exp x\<close> is the exponent
  of the binade of \<open>x\<close> and \<open>ulp p x\<close> the distance between neighbouring \<open>p\<close>-bit numbers
  there. The exponent range is not modelled: every number rounded below has a magnitude
  between \<open>2\<^sup>-\<^sup>1\<^sup>6\<close> and 2, or is 0, far inside the normal range of both formats.
  \<open>to_double\<close> is the rounding of an arithmetic result to double precision, \<open>fround\<close>
  the rounding of a double stored in a \<open>Float32Array\<close> (\<open>Math.fround\<close>).
\<close>

definition round_even :: "real \<Rightarrow> int" where
  "round_even y =
     (let n = \<lfloor>y\<rfloor>; d = y - of_int n
      in if d < 1 / 2 then n else if 1 / 2 < d then n + 1 else if even n then n else n + 1)"

definition float_exp :: "real \<Rightarrow> int" where
  "float_exp x = \<lfloor>log 2 \<bar>x\<bar>\<rfloor>"

definition ulp :: "int \<Rightarrow> real \<Rightarrow> real" where
  "ulp p x = 2 powi (float_exp x - (p - 1))"

definition round_float :: "int \<Rightarrow> real \<Rightarrow> real" where
  "round_float p x = (if x = 0 then 0 else of_int (round_even (x / ulp p x)) * ulp p x)"

definition to_double :: "real \<Rightarrow> real" where
  "to_double x = round_float 53 x"

definition fround :: "real \<Rightarrow> real" where
  "fround x = round_float 24 x"

text \<open>The finite 32-bit floats: a significand below \<open>2\<^sup>2\<^sup>4\<close> and an exponent in range.\<close>

definition is_float32 :: "real \<Rightarrow> bool" where
  "is_float32 x =
     (\<exists>m j. x = of_int m * 2 powi j \<and> \<bar>m\<bar> < 2 ^ 24 \<and> - 149 \<le> j \<and> j \<le> 104)"

text \<open>
  \<open>float32[i] = pcm16[i] / 0x7fff\<close>: the division is a double-precision division, and its
  result is stored in a \<open>Float32Array\<close>.
\<close>

definition f32 :: "real \<Rightarrow> real" where
  "f32 x = fround (to_double x)"

definition pcm_float :: "int16 \<Rightarrow> real" where
  "pcm_float w = f32 (real_of_int (sint w) / 32767)"

definition base64PCM16ToFloat32 :: "string \<Rightarrow> js_error + real list" where
  "base64PCM16ToFloat32 base64 =
     (case atob base64 of
        Inl e \<Rightarrow> Inl e
      | Inr binary \<Rightarrow>
          (let bytes = map charCodeAt binary
           in if odd (length bytes) then Inl RangeError
              else Inr (map pcm_float (int16_view bytes))))"

text \<open>One sample sent through the encoder and back through the decoder.\<close>

definition codec_round :: "real \<Rightarrow> real" where
  "codec_round x = pcm_float (pcm_word x)"

section \<open>Voice activity detection (AudioProcessor.processVAD)\<close>

text \<open>
  The root mean square of a frame. The division \<open>sum / audioData.length\<close> of an empty
  frame is \<open>0 / 0\<close>, which is NaN in JavaScript and \<open>0\<close> in HOL: the model returns
  \<open>None\<close> for NaN, and every comparison with NaN is false, as in the source.
\<close>

definition sum_squares :: "real list \<Rightarrow> real" where
  "sum_squares audioData = foldl (\<lambda>sum x. sum + x * x) 0 audioData"

definition rms :: "real list \<Rightarrow> real option" where
  "rms audioData =
     (if audioData = [] then None
      else Some (sqrt (sum_squares audioData / real (length audioData))))"

definition SILENCE_THRESHOLD :: real where
  "SILENCE_THRESHOLD = 1 / 100"

definition SPEECH_THRESHOLD :: real where
  "SPEECH_THRESHOLD = 2 / 100"

definition SILENCE_DURATION :: int where
  "SILENCE_DURATION = 1500"

fun js_gt :: "real option \<Rightarrow> real \<Rightarrow> bool" where
  "js_gt None t = False"
| "js_gt (Some v) t = (v > t)"

fun js_lt :: "real option \<Rightarrow> real \<Rightarrow> bool" where
  "js_lt None t = False"
| "js_lt (Some v) t = (v < t)"

text \<open>
  The state of the detector. \<open>silenceTimer\<close> is the pending timeout, represented by the
  time at which it falls due; \<open>silenceStartTime\<close> uses \<open>0\<close> for "not set", as the source.
\<close>

record vad_state =
  isSpeaking :: bool
  silenceStartTime :: int
  silenceTimer :: "int option"

datatype vad_signal = SpeechStart | SpeechEnd | VolumeChange "real option"

definition vad_init :: vad_state where
  "vad_init = \<lparr>isSpeaking = False, silenceStartTime = 0, silenceTimer = None\<rparr>"

text \<open>\<open>Math.min(rms * 10, 1)\<close>, NaN when \<open>rms\<close> is.\<close>

definition volume_of :: "real option \<Rightarrow> real option" where
  "volume_of r = map_option (\<lambda>v. min (v * 10) 1) r"

text \<open>\<open>processVAD\<close> at time \<open>now = Date.now()\<close>: the new state and the callbacks made.\<close>

definition processVAD :: "int \<Rightarrow> real list \<Rightarrow> vad_state \<Rightarrow> vad_state \<times> vad_signal list" where
  "processVAD now audioData s =
     (let r = rms audioData;
          out = [VolumeChange (volume_of r)]
      in if js_gt r SPEECH_THRESHOLD
         then (s\<lparr>isSpeaking := True, silenceTimer := None, silenceStartTime := 0\<rparr>,
               out @ (if \<not> isSpeaking s then [SpeechStart] else []))
         else if js_lt r SILENCE_THRESHOLD
         then (if isSpeaking s
               then (s\<lparr>silenceStartTime :=
                          (if silenceStartTime s = 0 then now else silenceStartTime s),
                        silenceTimer :=
                          (case silenceTimer s of
                             None \<Rightarrow> Some (now + SILENCE_DURATION)
                           | Some due \<Rightarrow> Some due)\<rparr>,
                     out)
               else (s, out))
         else (s, out))"

text \<open>The callback given to \<open>setTimeout\<close>, run at time \<open>now\<close>.\<close>

definition silenceTimeout :: "int \<Rightarrow> vad_state \<Rightarrow> vad_state \<times> vad_signal list" where
  "silenceTimeout now s =
     (let (s1, out) =
            (if isSpeaking s \<and> silenceStartTime s > 0
             then (let silenceDuration = now - silenceStartTime s
                   in if silenceDuration \<ge> SILENCE_DURATION
                      then (s\<lparr>isSpeaking := False, silenceStartTime := 0\<rparr>, [SpeechEnd])
                      else (s, []))
             else (s, []))
      in (s1\<lparr>silenceTimer := None\<rparr>, out))"

definition resetVADState :: "vad_state \<Rightarrow> vad_state" where
  "resetVADState s = s\<lparr>isSpeaking := False, silenceStartTime := 0, silenceTimer := None\<rparr>"

text \<open>
  What reaches the detector: a captured frame, the silence timer falling due (its callback
  runs only if the timer is armed and its delay has passed), and a reset by the caller.
\<close>

datatype vad_event = Frame "real list" | SilenceTimer | Reset

fun vad_step :: "int \<Rightarrow> vad_event \<Rightarrow> vad_state \<Rightarrow> vad_state \<times> vad_signal list" where
  "vad_step now (Frame audioData) s = processVAD now audioData s"
| "vad_step now SilenceTimer s =
     (case silenceTimer s of
        None \<Rightarrow> (s, [])
      | Some due \<Rightarrow> if due \<le> now then silenceTimeout now s else (s, []))"
| "vad_step now Reset s = (resetVADState s, [])"

fun vad_run :: "(int \<times> vad_event) list \<Rightarrow> vad_state \<Rightarrow> vad_state" where
  "vad_run [] s = s"
| "vad_run ((now, e) # es) s = vad_run es (fst (vad_step now e s))"

text \<open>Frames by the band of their energy.\<close>

definition is_speech :: "real list \<Rightarrow> bool" where
  "is_speech audioData = js_gt (rms audioData) SPEECH_THRESHOLD"

definition is_silence :: "real list \<Rightarrow> bool" where
  "is_silence audioData = js_lt (rms audioData) SILENCE_THRESHOLD"

fun breaks_silence :: "vad_event \<Rightarrow> bool" where
  "breaks_silence (Frame audioData) = is_speech audioData"
| "breaks_silence SilenceTimer = False"
| "breaks_silence Reset = True"

text \<open>
  A property of the history: a frame below the silence threshold was processed at time
  \<open>t0\<close>, and nothing since has been speech or a reset.
\<close>

definition silence_since :: "(int \<times> vad_event) list \<Rightarrow> int \<Rightarrow> bool" where
  "silence_since tr t0 =
     (\<exists>pre xs post. tr = pre @ (t0, Frame xs) # post \<and> is_silence xs
        \<and> list_all (\<lambda>p. \<not> breaks_silence (snd p)) post)"


section \<open>Playback scheduling (AudioProcessor.playAudioChunk, playNextChunk)\<close>

text \<open>
  Times of the audio clock are in seconds. \<open>started\<close> lists the calls
  \<open>source.start(startTime)\<close> made so far, each with the duration of its buffer.
\<close>

record playback =
  audioContext :: bool
  playbackQueue :: "real list list"
  isPlaying :: bool
  nextPlayTime :: real
  currentSource :: bool
  started :: "(real \<times> real) list"

definition SAMPLE_RATE :: real where
  "SAMPLE_RATE = 24000"

definition playback_init :: playback where
  "playback_init = \<lparr>audioContext = False, playbackQueue = [], isPlaying = False,
      nextPlayTime = 0, currentSource = False, started = []\<rparr>"

definition duration :: "real list \<Rightarrow> real" where
  "duration float32Data = real (length float32Data) / SAMPLE_RATE"

text \<open>\<open>playNextChunk\<close>, where \<open>currentTime\<close> is what \<open>audioContext.currentTime\<close> reads.\<close>

definition playNextChunk :: "real \<Rightarrow> playback \<Rightarrow> playback" where
  "playNextChunk currentTime p =
     (case playbackQueue p of
        [] \<Rightarrow> p\<lparr>isPlaying := False\<rparr>
      | float32Data # rest \<Rightarrow>
          if \<not> audioContext p then p\<lparr>isPlaying := False\<rparr>
          else (let startTime = max currentTime (nextPlayTime p)
                in p\<lparr>isPlaying := True, playbackQueue := rest,
                     nextPlayTime := startTime + duration float32Data,
                     started := started p @ [(startTime, duration float32Data)],
                     currentSource := True\<rparr>))"

text \<open>The part of \<open>playAudioChunk\<close> after decoding: queue the chunk, start if idle.\<close>

definition enqueue :: "real \<Rightarrow> real list \<Rightarrow> playback \<Rightarrow> playback" where
  "enqueue currentTime float32Data p =
     (let p1 = p\<lparr>playbackQueue := playbackQueue p @ [float32Data]\<rparr>
      in if \<not> isPlaying p1 then playNextChunk currentTime p1 else p1)"

text \<open>
  \<open>playAudioChunk\<close> creates the audio context if there is none, decodes and queues.
  When decoding raises, the promise is rejected and nothing is queued: the model returns
  the error beside the state. (The context is taken to be running, so that the wait for
  \<open>resume\<close> does not occur.)
\<close>

definition playAudioChunk :: "real \<Rightarrow> string \<Rightarrow> playback \<Rightarrow> js_error option \<times> playback" where
  "playAudioChunk currentTime base64 p =
     (let p1 = p\<lparr>audioContext := True\<rparr>
      in case base64PCM16ToFloat32 base64 of
           Inl e \<Rightarrow> (Some e, p1)
         | Inr float32Data \<Rightarrow> (None, enqueue currentTime float32Data p1))"

text \<open>The \<open>onended\<close> handler of a source, and \<open>stopPlayback\<close>.\<close>

definition onended :: "real \<Rightarrow> playback \<Rightarrow> playback" where
  "onended currentTime p = playNextChunk currentTime (p\<lparr>currentSource := False\<rparr>)"

definition stopPlayback :: "playback \<Rightarrow> playback" where
  "stopPlayback p = p\<lparr>currentSource := False, playbackQueue := [], isPlaying := False,
      nextPlayTime := 0\<rparr>"

section \<open>The relay (WebSocket proxy server)\<close>

text \<open>
  The query of the request URL as \<open>url.parse(req.url, true).query\<close> presents it: the
  parameters in order of appearance, as pairs of name and value. Reading a name gives
  \<open>undefined\<close> when it is absent, its value when it occurs once, and the array of its
  values when it is repeated.
\<close>

datatype qval = Undefined | Str string | Arr "string list"

definition query_get :: "(string \<times> string) list \<Rightarrow> string \<Rightarrow> qval" where
  "query_get query k =
     (case map snd (filter (\<lambda>p. fst p = k) query) of
        [] \<Rightarrow> Undefined
      | [v] \<Rightarrow> Str v
      | v # w # vs \<Rightarrow> Arr (v # w # vs))"

text \<open>JavaScript truthiness and string conversion (in a template literal) of such a value.\<close>

fun truthy :: "qval \<Rightarrow> bool" where
  "truthy Undefined = False"
| "truthy (Str s) = (s \<noteq> [])"
| "truthy (Arr vs) = True"

fun join_comma :: "string list \<Rightarrow> string" where
  "join_comma [] = []"
| "join_comma [v] = v"
| "join_comma (v # vs) = v @ '','' @ join_comma vs"

fun to_str :: "qval \<Rightarrow> string" where
  "to_str Undefined = ''undefined''"
| "to_str (Str s) = s"
| "to_str (Arr vs) = join_comma vs"

definition MINIMAX_WS_URL :: string where
  "MINIMAX_WS_URL = ''wss://api.minimaxi.com/ws/v1/realtime''"

datatype frame = Raw string | ProxyConnected | ProxyError string

text \<open>
  What the relay holds and has done for one inbound connection: whether the event handlers
  of lines 57 to 118 are registered, whether each socket is in state OPEN, every upstream
  socket requested (URL and headers), the frames sent on each side and the \<open>close\<close> calls
  made (\<open>minimaxWs.close()\<close> without arguments is recorded as the unit value).
  \<open>crashed\<close> records that a handler has thrown: the relay installs no handler for uncaught
  exceptions, so the process ends and nothing more is done for any connection.
\<close>

record relay_conn =
  handlers :: bool
  clientOpen :: bool
  upstreamOpen :: bool
  upstreamRequests :: "(string \<times> (string \<times> string) list) list"
  clientSent :: "frame list"
  upstreamSent :: "string list"
  clientCloseCalls :: "(nat \<times> string) list"
  upstreamCloseCalls :: "unit list"
  relayConnected :: bool
  crashed :: bool

definition new_conn :: relay_conn where
  "new_conn = \<lparr>handlers = False, clientOpen = True, upstreamOpen = False,
      upstreamRequests = [], clientSent = [], upstreamSent = [], clientCloseCalls = [],
      upstreamCloseCalls = [], relayConnected = False, crashed = False\<rparr>"

text \<open>The handler of \<open>wss.on('connection')\<close>, up to the creation of the upstream socket.\<close>

definition on_connection :: "(string \<times> string) list \<Rightarrow> relay_conn" where
  "on_connection query =
     (let apiKey = query_get query ''apiKey'';
          model = (if truthy (query_get query ''model'') then query_get query ''model''
                   else Str ''abab6.5s-chat'')
      in if \<not> truthy apiKey
         then new_conn\<lparr>clientCloseCalls := [(4001, ''Missing API Key'')], clientOpen := False\<rparr>
         else new_conn\<lparr>upstreamRequests :=
                          [(MINIMAX_WS_URL @ ''?model='' @ to_str model,
                            [(''Authorization'', ''Bearer '' @ to_str apiKey)])],
                        handlers := True\<rparr>)"

text \<open>
  The events that later arrive for the connection. The socket library updates the ready
  state before it calls a handler; a handler runs only if it was registered.
\<close>

datatype relay_event =
    UpstreamOpen
  | UpstreamMessage string
  | UpstreamError string
  | UpstreamClose nat string
  | ClientMessage string
  | ClientClose
  | ClientError string

text \<open>
  \<open>close(code, reason)\<close> of the socket library (the package \<open>ws\<close>, which is not part of
  the repository) accepts only the status codes that may be sent in a close frame, and
  throws a \<open>TypeError\<close> for any other number. The codes 1005 (no status received) and 1006
  (abnormal closure), which a \<open>close\<close> event reports when the peer sent no close frame, are
  among those refused. The reason passed on by the relay was received in a close frame, so
  it is within the 123 bytes that \<open>close\<close> accepts.
\<close>

definition isValidStatusCode :: "nat \<Rightarrow> bool" where
  "isValidStatusCode code =
     ((1000 \<le> code \<and> code \<le> 1014 \<and> code \<noteq> 1004 \<and> code \<noteq> 1005 \<and> code \<noteq> 1006)
      \<or> (3000 \<le> code \<and> code \<le> 4999))"

fun relay_ready :: "relay_event \<Rightarrow> relay_conn \<Rightarrow> relay_conn" where
  "relay_ready UpstreamOpen c = c\<lparr>upstreamOpen := True\<rparr>"
| "relay_ready (UpstreamClose code reason) c = c\<lparr>upstreamOpen := False\<rparr>"
| "relay_ready ClientClose c = c\<lparr>clientOpen := False\<rparr>"
| "relay_ready _ c = c"

fun relay_handler :: "relay_event \<Rightarrow> relay_conn \<Rightarrow> relay_conn" where
  "relay_handler UpstreamOpen c =
     c\<lparr>relayConnected := True, clientSent := clientSent c @ [ProxyConnected]\<rparr>"
| "relay_handler (UpstreamMessage d) c =
     (if clientOpen c then c\<lparr>clientSent := clientSent c @ [Raw d]\<rparr> else c)"
| "relay_handler (UpstreamError m) c =
     (if clientOpen c then c\<lparr>clientSent := clientSent c @ [ProxyError m]\<rparr> else c)"
| "relay_handler (UpstreamClose code reason) c =
     (let c1 = c\<lparr>relayConnected := False\<rparr>
      in if clientOpen c1
         then (if isValidStatusCode code
               then c1\<lparr>clientCloseCalls := clientCloseCalls c1 @ [(code, reason)],
                       clientOpen := False\<rparr>
               else c1\<lparr>crashed := True\<rparr>)
         else c1)"
| "relay_handler (ClientMessage d) c =
     (if upstreamOpen c then c\<lparr>upstreamSent := upstreamSent c @ [d]\<rparr> else c)"
| "relay_handler ClientClose c =
     (if upstreamOpen c
      then c\<lparr>upstreamCloseCalls := upstreamCloseCalls c @ [()], upstreamOpen := False\<rparr>
      else c)"
| "relay_handler (ClientError m) c =
     (if upstreamOpen c
      then c\<lparr>upstreamCloseCalls := upstreamCloseCalls c @ [()], upstreamOpen := False\<rparr>
      else c)"

definition relay_event :: "relay_event \<Rightarrow> relay_conn \<Rightarrow> relay_conn" where
  "relay_event e c =
     (if crashed c then c
      else (let c1 = relay_ready e c in if handlers c1 then relay_handler e c1 else c1))"

definition relay_run :: "relay_event list \<Rightarrow> relay_conn \<Rightarrow> relay_conn" where
  "relay_run es c = foldl (\<lambda>c e. relay_event e c) c es"

section \<open>The transport session (RealtimeService)\<close>

text \<open>
  Time is in milliseconds, an integer as \<open>Date.now()\<close> gives it. Every WebSocket the
  service creates is an entry of a store of ready states, so that a handler of an older
  socket and \<open>this.ws\<close> can refer to different sockets.
\<close>

datatype ready_state = CONNECTING | OPEN | CLOSING | CLOSED

datatype server_event = ProxyConnectedEvent | OtherEvent string | Malformed

datatype client_event = SessionUpdate | TaskContinue

datatype rt_notice = OnConnected | OnDisconnected | Warned

record rt_state =
  useProxy :: bool
  ws :: "nat option"
  sockets :: "ready_state list"
  rtConnected :: bool
  reconnectAttempts :: nat
  manualDisconnect :: bool
  heartbeatInterval :: "int option"
  reconnectTimers :: "int list"
  wire :: "(nat \<times> client_event) list"
  scheduledReconnects :: "int list"
  notices :: "rt_notice list"

text \<open>
  \<open>heartbeatInterval\<close> holds the time at which the interval timer is next due, and
  \<open>reconnectTimers\<close> the due times of the pending \<open>setTimeout(() => this.connect(), 2000)\<close>.
  \<open>wire\<close> lists what was written on which socket, \<open>scheduledReconnects\<close> the due time of
  every reconnect timer ever armed, \<open>notices\<close> the callbacks and warnings issued.
\<close>

definition maxReconnectAttempts :: nat where
  "maxReconnectAttempts = 3"

definition HEARTBEAT_INTERVAL :: int where
  "HEARTBEAT_INTERVAL = 60000"

definition rt_new :: "bool \<Rightarrow> rt_state" where
  "rt_new proxy = \<lparr>useProxy = proxy, ws = None, sockets = [], rtConnected = False,
      reconnectAttempts = 0, manualDisconnect = False, heartbeatInterval = None,
      reconnectTimers = [], wire = [], scheduledReconnects = [], notices = []\<rparr>"

text \<open>\<open>send\<close>: dropped with a warning unless \<open>this.ws\<close> is set and in state OPEN.\<close>

definition send :: "client_event \<Rightarrow> rt_state \<Rightarrow> rt_state" where
  "send ev s =
     (case ws s of
        None \<Rightarrow> s\<lparr>notices := notices s @ [Warned]\<rparr>
      | Some i \<Rightarrow>
          if i < length (sockets s) \<and> sockets s ! i = OPEN
          then s\<lparr>wire := wire s @ [(i, ev)]\<rparr>
          else s\<lparr>notices := notices s @ [Warned]\<rparr>)"

definition initSession :: "rt_state \<Rightarrow> rt_state" where
  "initSession s = send SessionUpdate s"

definition stopHeartbeat :: "rt_state \<Rightarrow> rt_state" where
  "stopHeartbeat s = s\<lparr>heartbeatInterval := None\<rparr>"

definition startHeartbeat :: "int \<Rightarrow> rt_state \<Rightarrow> rt_state" where
  "startHeartbeat now s = (stopHeartbeat s)\<lparr>heartbeatInterval := Some (now + HEARTBEAT_INTERVAL)\<rparr>"

text \<open>The callback of the interval timer.\<close>

definition heartbeat_tick :: "rt_state \<Rightarrow> rt_state" where
  "heartbeat_tick s = (if rtConnected s then send TaskContinue s else s)"

text \<open>
  \<open>connect\<close>: nothing when already connected; otherwise a new socket, which becomes
  \<open>this.ws\<close>. (\<open>new WebSocket\<close> raises only for an ill-formed URL, which the two fixed
  URL patterns are not.)
\<close>

definition connect :: "rt_state \<Rightarrow> rt_state" where
  "connect s =
     (if rtConnected s then s
      else s\<lparr>ws := Some (length (sockets s)), sockets := sockets s @ [CONNECTING]\<rparr>)"

definition disconnect :: "rt_state \<Rightarrow> rt_state" where
  "disconnect s =
     (let s1 = stopHeartbeat (s\<lparr>manualDisconnect := True\<rparr>);
          s2 = (case ws s1 of
                  None \<Rightarrow> s1
                | Some i \<Rightarrow>
                    s1\<lparr>sockets := (if i < length (sockets s1) \<and> sockets s1 ! i \<noteq> CLOSED
                                     then (sockets s1)[i := CLOSING] else sockets s1),
                        ws := None\<rparr>)
      in s2\<lparr>rtConnected := False\<rparr>)"

definition onopen :: "rt_state \<Rightarrow> rt_state" where
  "onopen s =
     (if \<not> useProxy s
      then (let s1 = initSession (s\<lparr>rtConnected := True, reconnectAttempts := 0\<rparr>)
            in s1\<lparr>notices := notices s1 @ [OnConnected]\<rparr>)
      else s)"

definition handleServerEvent :: "int \<Rightarrow> server_event \<Rightarrow> rt_state \<Rightarrow> rt_state" where
  "handleServerEvent now ev s =
     (case ev of
        ProxyConnectedEvent \<Rightarrow>
          (let s1 = initSession (s\<lparr>rtConnected := True, reconnectAttempts := 0\<rparr>);
               s2 = startHeartbeat now s1
           in s2\<lparr>notices := notices s2 @ [OnConnected]\<rparr>)
      | OtherEvent t \<Rightarrow> s
      | Malformed \<Rightarrow> s)"

definition onclose :: "int \<Rightarrow> rt_state \<Rightarrow> rt_state" where
  "onclose now s =
     (let s1 = s\<lparr>rtConnected := False, notices := notices s @ [OnDisconnected]\<rparr>
      in if manualDisconnect s1 then s1\<lparr>manualDisconnect := False\<rparr>
         else if reconnectAttempts s1 < maxReconnectAttempts
         then s1\<lparr>reconnectAttempts := reconnectAttempts s1 + 1,
                 reconnectTimers := reconnectTimers s1 @ [now + 2000],
                 scheduledReconnects := scheduledReconnects s1 @ [now + 2000]\<rparr>
         else s1)"

text \<open>
  What happens to the service: calls of its methods, events of a socket it created, and
  timers falling due. A socket event first changes the ready state of that socket, as the
  platform does, and then runs the handler installed by \<open>connect\<close>. A timer runs its
  callback only when it is armed and due.
\<close>

datatype rt_event =
    Connect
  | Disconnect
  | SocketOpen nat
  | SocketMessage nat server_event
  | SocketError nat
  | SocketClose nat
  | ReconnectTimer
  | HeartbeatTimer

definition set_ready :: "nat \<Rightarrow> ready_state \<Rightarrow> rt_state \<Rightarrow> rt_state" where
  "set_ready i r s = s\<lparr>sockets := (if i < length (sockets s) then (sockets s)[i := r] else sockets s)\<rparr>"

fun remove_due :: "int \<Rightarrow> int list \<Rightarrow> int list option" where
  "remove_due now [] = None"
| "remove_due now (d # ds) =
     (if d \<le> now then Some ds else map_option ((#) d) (remove_due now ds))"

fun rt_step :: "int \<Rightarrow> rt_event \<Rightarrow> rt_state \<Rightarrow> rt_state" where
  "rt_step now Connect s = connect s"
| "rt_step now Disconnect s = disconnect s"
| "rt_step now (SocketOpen i) s =
     (if i < length (sockets s) then onopen (set_ready i OPEN s) else s)"
| "rt_step now (SocketMessage i ev) s =
     (if i < length (sockets s) then handleServerEvent now ev s else s)"
| "rt_step now (SocketError i) s = s"
| "rt_step now (SocketClose i) s =
     (if i < length (sockets s) then onclose now (set_ready i CLOSED s) else s)"
| "rt_step now ReconnectTimer s =
     (case remove_due now (reconnectTimers s) of
        None \<Rightarrow> s
      | Some rest \<Rightarrow> connect (s\<lparr>reconnectTimers := rest\<rparr>))"
| "rt_step now HeartbeatTimer s =
     (case heartbeatInterval s of
        None \<Rightarrow> s
      | Some due \<Rightarrow>
          if due \<le> now
          then heartbeat_tick (s\<lparr>heartbeatInterval := Some (due + HEARTBEAT_INTERVAL)\<rparr>)
          else s)"

fun rt_run :: "(int \<times> rt_event) list \<Rightarrow> rt_state \<Rightarrow> rt_state" where
  "rt_run [] s = s"
| "rt_run ((now, e) # es) s = rt_run es (rt_step now e s)"



section \<open>The turn-taking coordinator (App.tsx)\<close>

text \<open>
  The component state and the refs of \<open>App\<close> in one record. A ref that mirrors a piece
  of state (\<open>isConversationModeRef\<close>, \<open>isRespondingRef\<close>, \<open>isListeningRef\<close>,
  \<open>streamingTextRef\<close>) is the same field as that state: the two are assigned together,
  or the ref is refreshed at every render, which happens between two events. \<open>rtReady\<close> is
  what \<open>realtimeRef.current?.isConnectedState()\<close> returns, \<open>apiKeyBlank\<close> whether
  \<open>apiKey.trim()\<close> is empty, \<open>calls\<close> the calls made on the realtime service,
  \<open>captureCalls\<close> the number of calls of \<open>startCapture\<close>, and \<open>drainPolls\<close> the number
  of pending \<open>setTimeout(checkPlaybackDone, 200)\<close>. \<open>errorTimer\<close> is the time (ms) at
  which the pending \<open>setTimeout(() => setError(null), 5000)\<close> of the effect on \<open>error\<close> is
  due, if one is pending. \<open>audioProcessorRef.current\<close> is set when the component mounts and
  is never cleared, so the tests for it always succeed.
\<close>

datatype conn_status = StatusDisconnected | StatusConnecting | StatusConnected | StatusError

datatype app_error = MicrophoneError string | ApiError string | ConnectError string | ApiKeyMissing

datatype role = User | Assistant

datatype rt_call = AppendAudio string | CommitAudio | CreateResponse | ClearAudioBuffer | Interrupt

datatype capture_result = CaptureOk | CaptureFails string

datatype connect_result = ConnectOk | ConnectFails string

record app =
  connectionStatus :: conn_status
  isConversationMode :: bool
  isListening :: bool
  isResponding :: bool
  streamingText :: string
  error :: "app_error option"
  volume :: "real option"
  showSettings :: bool
  apiKeyBlank :: bool
  messages :: "(role \<times> string \<times> bool) list"
  isInterrupted :: bool
  hasSpeech :: bool
  rtReady :: bool
  calls :: "rt_call list"
  player :: playback
  vad :: vad_state
  capturing :: bool
  captureCalls :: nat
  drainPolls :: nat
  errorTimer :: "int option"

definition app_init :: app where
  "app_init = \<lparr>connectionStatus = StatusDisconnected, isConversationMode = False,
      isListening = False, isResponding = False, streamingText = [], error = None,
      volume = Some 0, showSettings = False, apiKeyBlank = False, messages = [],
      isInterrupted = False, hasSpeech = False, rtReady = False, calls = [],
      player = playback_init, vad = vad_init, capturing = False, captureCalls = 0,
      drainPolls = 0, errorTimer = None\<rparr>"

text \<open>
  \<open>setError\<close>, together with the effect that depends on \<open>error\<close>. Setting the value that
  \<open>error\<close> already has causes no render. When the value changes, the cleanup of the effect
  cancels the pending timer, and if the new value is a message the effect arms a new timer,
  due 5000 ms later. Every message the component sets is a non-empty string, so the test
  \<open>if (error)\<close> of the effect is the test for a message.
\<close>

definition setError :: "int \<Rightarrow> app_error option \<Rightarrow> app \<Rightarrow> app" where
  "setError now v s =
     (if v = error s then s
      else s\<lparr>error := v,
             errorTimer := (case v of None \<Rightarrow> None | Some msg \<Rightarrow> Some (now + 5000))\<rparr>)"

text \<open>
  \<open>startListening\<close>. \<open>startCapture\<close> either succeeds or raises
  \<open>Error('... ' + error.message)\<close>, which the \<open>catch\<close> turns into \<open>setError\<close>.
\<close>

definition startListening :: "int \<Rightarrow> capture_result \<Rightarrow> app \<Rightarrow> app" where
  "startListening now capture s =
     (if \<not> rtReady s then s
      else (let s1 = s\<lparr>hasSpeech := False, vad := resetVADState (vad s),
                         captureCalls := captureCalls s + 1\<rparr>
            in case capture of
                 CaptureOk \<Rightarrow> s1\<lparr>capturing := True, isListening := True\<rparr>
               | CaptureFails msg \<Rightarrow> setError now (Some (MicrophoneError msg)) s1))"

definition stopListening :: "app \<Rightarrow> app" where
  "stopListening s =
     s\<lparr>capturing := False, vad := resetVADState (vad s), isListening := False,
       volume := Some 0\<rparr>"

definition handleSpeechEnd :: "app \<Rightarrow> app" where
  "handleSpeechEnd s =
     (if \<not> isConversationMode s \<or> \<not> hasSpeech s then s
      else if isResponding s then s
      else s\<lparr>hasSpeech := False, vad := resetVADState (vad s),
             calls := calls s @ [CommitAudio, CreateResponse]\<rparr>)"

definition handleSpeechStart :: "app \<Rightarrow> app" where
  "handleSpeechStart s =
     (let s1 = s\<lparr>hasSpeech := True\<rparr>
      in if isResponding s1
         then s1\<lparr>isInterrupted := True, player := stopPlayback (player s1),
                 calls := calls s1 @ [Interrupt, ClearAudioBuffer],
                 isResponding := False, streamingText := [], hasSpeech := True\<rparr>
         else s1)"

text \<open>The callbacks given to the realtime service.\<close>

definition onConnected :: "int \<Rightarrow> app \<Rightarrow> app" where
  "onConnected now s = setError now None (s\<lparr>connectionStatus := StatusConnected\<rparr>)"

definition onDisconnected :: "app \<Rightarrow> app" where
  "onDisconnected s =
     s\<lparr>connectionStatus := StatusDisconnected, isConversationMode := False,
       isListening := False, isResponding := False\<rparr>"

definition onUserTranscript :: "string \<Rightarrow> app \<Rightarrow> app" where
  "onUserTranscript transcript s = s\<lparr>messages := messages s @ [(User, transcript, True)]\<rparr>"

definition onResponseStart :: "app \<Rightarrow> app" where
  "onResponseStart s = s\<lparr>isInterrupted := False, isResponding := True, streamingText := []\<rparr>"

definition onTextDelta :: "string \<Rightarrow> app \<Rightarrow> app" where
  "onTextDelta delta s =
     (if isInterrupted s then s
      else s\<lparr>isResponding := True, streamingText := streamingText s @ delta\<rparr>)"

definition onTextDone :: "string \<Rightarrow> app \<Rightarrow> app" where
  "onTextDone text s =
     (if isInterrupted s then s
      else s\<lparr>messages := messages s @ [(Assistant, text, False)], streamingText := []\<rparr>)"

definition onAudioDelta :: "real \<Rightarrow> string \<Rightarrow> app \<Rightarrow> app" where
  "onAudioDelta clock audioBase64 s =
     (if isInterrupted s then s
      else s\<lparr>isResponding := True,
             player := snd (playAudioChunk clock audioBase64 (player s))\<rparr>)"

definition onAudioDone :: "app \<Rightarrow> app" where
  "onAudioDone s = s\<lparr>drainPolls := drainPolls s + 1\<rparr>"

definition checkPlaybackDone :: "int \<Rightarrow> capture_result \<Rightarrow> app \<Rightarrow> app" where
  "checkPlaybackDone now capture s =
     (if \<not> isPlaying (player s)
      then (let s1 = (if \<not> isInterrupted s then s\<lparr>isResponding := False\<rparr> else s);
                s2 = s1\<lparr>isInterrupted := False\<rparr>
            in if isConversationMode s2
               then (let s3 = s2\<lparr>hasSpeech := False, vad := resetVADState (vad s2)\<rparr>
                     in if \<not> isListening s3 then startListening now capture s3 else s3)
               else s2)
      else s\<lparr>drainPolls := drainPolls s + 1\<rparr>)"

definition onError :: "int \<Rightarrow> string \<Rightarrow> app \<Rightarrow> app" where
  "onError now msg s = (setError now (Some (ApiError msg)) s)\<lparr>isResponding := False\<rparr>"

text \<open>
  \<open>handleConnect\<close>: a new service is created and connected; \<open>connect\<close> either resolves,
  after the \<open>onConnected\<close> callback, or rejects.
\<close>

definition handleConnect :: "int \<Rightarrow> connect_result \<Rightarrow> app \<Rightarrow> app" where
  "handleConnect now conn s =
     (if connectionStatus s = StatusConnecting then s
      else if apiKeyBlank s then (setError now (Some ApiKeyMissing) s)\<lparr>showSettings := True\<rparr>
      else (let s1 = (setError now None (s\<lparr>connectionStatus := StatusConnecting\<rparr>))
                       \<lparr>rtReady := False\<rparr>
            in case conn of
                 ConnectOk \<Rightarrow> onConnected now (s1\<lparr>rtReady := True\<rparr>)
               | ConnectFails msg \<Rightarrow>
                   setError now (Some (ConnectError msg)) (s1\<lparr>connectionStatus := StatusError\<rparr>)))"

definition handleDisconnect :: "app \<Rightarrow> app" where
  "handleDisconnect s =
     (let s1 = stopListening (s\<lparr>isConversationMode := False\<rparr>)
      in s1\<lparr>rtReady := False, player := stopPlayback (player s1),
            connectionStatus := StatusDisconnected, isResponding := False\<rparr>)"

text \<open>The interruption shared by both branches of \<open>handleVoiceInput\<close>.\<close>

definition interrupt_response :: "app \<Rightarrow> app" where
  "interrupt_response s =
     s\<lparr>isInterrupted := True, player := stopPlayback (player s),
       calls := calls s @ [Interrupt], isResponding := False, streamingText := []\<rparr>"

text \<open>
  \<open>handleVoiceInput\<close>. The tests of \<open>isConversationMode\<close> and \<open>isResponding\<close> read the
  values of the render in which the handler was created, that is, of the state in which
  the button was pressed.
\<close>

definition handleVoiceInput :: "int \<Rightarrow> connect_result \<Rightarrow> capture_result \<Rightarrow> app \<Rightarrow> app" where
  "handleVoiceInput now conn capture s =
     (let s0 = (if \<not> rtReady s then handleConnect now conn s else s)
      in if \<not> rtReady s0 then s0
         else if isConversationMode s
         then (let s1 = stopListening (s0\<lparr>isConversationMode := False\<rparr>);
                   s2 = s1\<lparr>calls := calls s1 @ [ClearAudioBuffer]\<rparr>
               in if isResponding s then interrupt_response s2 else s2)
         else (let s1 = (if isResponding s then interrupt_response s0 else s0);
                   s2 = s1\<lparr>isConversationMode := True\<rparr>;
                   s3 = startListening now capture s2
               in setError now None s3))"

definition handleInterrupt :: "app \<Rightarrow> app" where
  "handleInterrupt s =
     s\<lparr>isInterrupted := True, player := stopPlayback (player s),
       calls := calls s @ [Interrupt], streamingText := [], isResponding := False\<rparr>"

text \<open>
  The callbacks of the voice activity detection, and a captured frame: the detector runs,
  its signals reach the handlers above, and the encoded frame is appended.
\<close>

fun on_vad_signal :: "vad_signal \<Rightarrow> app \<Rightarrow> app" where
  "on_vad_signal SpeechStart s = handleSpeechStart s"
| "on_vad_signal SpeechEnd s = handleSpeechEnd s"
| "on_vad_signal (VolumeChange v) s = s\<lparr>volume := v\<rparr>"

definition run_vad :: "int \<Rightarrow> vad_event \<Rightarrow> app \<Rightarrow> app" where
  "run_vad now e s =
     (let (v, signals) = vad_step now e (vad s)
      in fold on_vad_signal signals (s\<lparr>vad := v\<rparr>))"

definition onaudioprocess :: "int \<Rightarrow> real list \<Rightarrow> app \<Rightarrow> app" where
  "onaudioprocess now inputData s =
     (if \<not> capturing s then s
      else (let s1 = run_vad now (Frame inputData) s
            in s1\<lparr>calls := calls s1 @ [AppendAudio (float32ToBase64PCM16 inputData)]\<rparr>))"

text \<open>
  Everything that can happen to the component, with the wall-clock time \<open>now\<close> (ms) and
  the audio clock (s) at which it happens.
\<close>

datatype app_event =
    MicFrame "real list"
  | VadTimer
  | ChunkEnded
  | ServerResponseCreated
  | ServerTextDelta string
  | ServerTextDone string
  | ServerAudioDelta string
  | ServerAudioDone
  | ServerUserTranscript string
  | ServerError string
  | SocketDisconnected
  | DrainPoll capture_result
  | ClickVoice connect_result capture_result
  | ClickInterrupt
  | ClickDisconnect
  | ClickError
  | ErrorTimer

fun app_step :: "int \<Rightarrow> real \<Rightarrow> app_event \<Rightarrow> app \<Rightarrow> app" where
  "app_step now clock (MicFrame inputData) s = onaudioprocess now inputData s"
| "app_step now clock VadTimer s = run_vad now SilenceTimer s"
| "app_step now clock ChunkEnded s = s\<lparr>player := onended clock (player s)\<rparr>"
| "app_step now clock ServerResponseCreated s = onResponseStart s"
| "app_step now clock (ServerTextDelta delta) s = onTextDelta delta s"
| "app_step now clock (ServerTextDone text) s = onTextDone text s"
| "app_step now clock (ServerAudioDelta audioBase64) s = onAudioDelta clock audioBase64 s"
| "app_step now clock ServerAudioDone s = onAudioDone s"
| "app_step now clock (ServerUserTranscript transcript) s = onUserTranscript transcript s"
| "app_step now clock (ServerError msg) s = onError now msg s"
| "app_step now clock SocketDisconnected s = onDisconnected (s\<lparr>rtReady := False\<rparr>)"
| "app_step now clock (DrainPoll capture) s =
     (if drainPolls s = 0 then s
      else checkPlaybackDone now capture (s\<lparr>drainPolls := drainPolls s - 1\<rparr>))"
| "app_step now clock (ClickVoice conn capture) s = handleVoiceInput now conn capture s"
| "app_step now clock ClickInterrupt s = handleInterrupt s"
| "app_step now clock ClickDisconnect s = handleDisconnect s"
| "app_step now clock ClickError s = setError now None s"
| "app_step now clock ErrorTimer s =
     (case errorTimer s of
        None \<Rightarrow> s
      | Some due \<Rightarrow> if due \<le> now then setError now None s else s)"

fun app_run :: "(int \<times> real \<times> app_event) list \<Rightarrow> app \<Rightarrow> app" where
  "app_run [] s = s"
| "app_run ((now, clock, e) # es) s = app_run es (app_step now clock e s)"

text \<open>
  A run used below: conversation mode is entered, a response starts and streams text, and
  a loud frame from the microphone interrupts it.
\<close>

definition barge_in_run :: "(int \<times> real \<times> app_event) list" where
  "barge_in_run =
     [(0, 0, ClickVoice ConnectOk CaptureOk),
      (5000, 5, ServerResponseCreated),
      (5100, 51 / 10, ServerTextDelta ''Hel''),
      (5200, 52 / 10, MicFrame [1 / 2])]"

text \<open>
  A run in which the microphone is refused: the voice button is pressed in the initial
  state, the connection succeeds and the capture fails. Later an audio-done event of the
  server arrives and its poll runs 200 ms afterwards, the microphone still being refused.
\<close>

definition capture_denied_run :: "(int \<times> real \<times> app_event) list" where
  "capture_denied_run = [(0, 0, ClickVoice ConnectOk (CaptureFails ''Permission denied''))]"

definition capture_denied_poll :: "(int \<times> real \<times> app_event) list" where
  "capture_denied_poll =
     [(1000, 1, ServerAudioDone), (1200, 12 / 10, DrainPoll (CaptureFails ''Permission denied''))]"

section \<open>Properties of the format conversion\<close>

subsection \<open>Quantisation and byte layout\<close>

lemma clamp_sample_range: "- 1 \<le> clamp_sample x \<and> clamp_sample x \<le> 1"
  by (simp add: clamp_sample_def)

lemma js_trunc_pcm_val_range: "- 32768 \<le> js_trunc (pcm_val x) \<and> js_trunc (pcm_val x) \<le> 32767"
proof -
  let ?s = "clamp_sample x"
  have r: "- 1 \<le> ?s" "?s \<le> 1" using clamp_sample_range by auto
  show ?thesis
  proof (cases "?s < 0")
    case True
    then have v: "pcm_val x = ?s * 32768" by (simp add: pcm_val_def scale_sample_def)
    have "- 32768 \<le> ?s * 32768" "?s * 32768 < 0" using r True by auto
    then have "- 32768 \<le> \<lceil>?s * 32768\<rceil>" "\<lceil>?s * 32768\<rceil> \<le> 0"
      by (simp_all add: le_ceiling_iff ceiling_le_iff)
    then show ?thesis using True v \<open>?s * 32768 < 0\<close> by (simp add: js_trunc_def)
  next
    case False
    then have v: "pcm_val x = ?s * 32767" by (simp add: pcm_val_def scale_sample_def)
    have "0 \<le> ?s * 32767" "?s * 32767 \<le> 32767" using r False by auto
    then have "0 \<le> \<lfloor>?s * 32767\<rfloor>" "\<lfloor>?s * 32767\<rfloor> \<le> 32767"
      by (simp_all add: le_floor_iff floor_le_iff)
    then show ?thesis using False v \<open>0 \<le> ?s * 32767\<close> by (simp add: js_trunc_def)
  qed
qed

lemma sint_pcm_word: "sint (pcm_word x) = js_trunc (pcm_val x)"
  using js_trunc_pcm_val_range [of x]
  by (simp add: pcm_word_def toInt16_def sint_sbintrunc' signed_take_bit_int_eq_self)

lemma int16_view_bytes: "int16_view (int16_bytes w @ rest) = w # int16_view rest"
  apply (simp add: int16_bytes_def)
  apply (rule bit_word_eqI)
  apply (auto simp add: bit_simps)
  done

lemma binary_of_bytes_map: "binary_of_bytes bs = map fromCharCode bs"
proof (induction bs rule: binary_of_bytes.induct)
  case (1 bs)
  show ?case
  proof (cases "bs = []")
    case True
    then show ?thesis by (simp add: binary_of_bytes.simps)
  next
    case False
    have "binary_of_bytes bs = map fromCharCode (take 32768 bs) @ binary_of_bytes (drop 32768 bs)"
      using False by (subst binary_of_bytes.simps) simp
    also have "\<dots> = map fromCharCode (take 32768 bs) @ map fromCharCode (drop 32768 bs)"
      using 1 False by simp
    also have "\<dots> = map fromCharCode bs"
      by (simp flip: map_append)
    finally show ?thesis .
  qed
qed

lemma charCodeAt_fromCharCode: "charCodeAt (fromCharCode b) = b"
proof -
  have "unat b mod 256 = unat b"
    using unsigned_less [of b, where 'a = nat] by simp
  then show ?thesis by (simp add: charCodeAt_def fromCharCode_def)
qed

subsection \<open>Base64 round trip\<close>

lemma b64_all: "list_all (\<lambda>k. b64_index (b64_char k) = Some k \<and> b64_char k \<noteq> CHR ''=''
      \<and> \<not> is_ascii_whitespace (b64_char k)) [0..<64]"
  by (simp add: b64_index_def b64_char_def b64_alphabet_def is_ascii_whitespace_def upt_rec)

lemma b64_char_props:
  assumes "k < 64"
  shows "b64_index (b64_char k) = Some k" "b64_char k \<noteq> CHR ''=''"
    "\<not> is_ascii_whitespace (b64_char k)"
  using b64_all assms unfolding list_all_iff by auto

lemma bytes_sextets_bound: "\<forall>b \<in> set bs. b < 256 \<Longrightarrow> \<forall>k \<in> set (bytes_sextets bs). k < 64"
  by (induction bs rule: bytes_sextets.induct) (auto simp: less_mult_imp_div_less)

lemma sextet_join1:
  assumes "b < 256"
  shows "a div 4 * 4 + ((a mod 4) * 16 + b div 16) div 16 = (a::nat)"
proof -
  have "b div 16 < 16" using assms by simp
  then show ?thesis by simp
qed

lemma sextet_join2:
  assumes "c < 256" "b < 256"
  shows "(((a mod 4) * 16 + b div 16) mod 16) * 16 + ((b mod 16) * 4 + c div 64) div 4 = (b::nat)"
proof -
  have "b div 16 < 16" "c div 64 < 4" using assms by simp_all
  then show ?thesis by simp
qed

lemma sextet_join3:
  assumes "c < 256"
  shows "(((b mod 16) * 4 + c div 64) mod 4) * 64 + c mod 64 = (c::nat)"
proof -
  have "c div 64 < 4" using assms by simp
  then show ?thesis by simp
qed

lemma sextets_bytes_inverse: "\<forall>b \<in> set bs. b < 256 \<Longrightarrow> sextets_bytes (bytes_sextets bs) = bs"
proof (induction bs rule: bytes_sextets.induct)
  case (1 a b c rest)
  then show ?case using sextet_join1 [of b a] sextet_join2 [of c b a] sextet_join3 [of c b]
    by simp
next
  case (2 a b)
  then show ?case using sextet_join1 [of b a] sextet_join2 [of 0 b a] by simp
next
  case (3 a)
  then show ?case using sextet_join1 [of 0 a] by simp
next
  case 4
  show ?case by simp
qed

lemma length_bytes_sextets:
  "length (bytes_sextets bs) = 4 * (length bs div 3) + (if length bs mod 3 = 0 then 0 else length bs mod 3 + 1)"
  by (induction bs rule: bytes_sextets.induct) auto

lemma those_list_index: "\<forall>k \<in> set sx. k < 64 \<Longrightarrow> those_list (map b64_index (map b64_char sx)) = Some sx"
  by (induction sx) (simp_all add: b64_char_props)

lemma strip_padding_btoa:
  assumes "\<forall>c \<in> set body. c \<noteq> CHR ''=''" and "k \<le> 2"
  shows "strip_padding (body @ replicate k (CHR ''='')) = body"
proof -
  consider "k = 0" | "k = 1" | "k = 2" using assms(2) by linarith
  then show ?thesis
  proof cases
    case 1
    have "drop (length body - 2) body \<noteq> ''==''" 
    proof
      assume h: "drop (length body - 2) body = ''==''"
      then have "CHR ''='' \<in> set (drop (length body - 2) body)" by simp
      then have "CHR ''='' \<in> set body" by (rule in_set_dropD)
      then show False using assms(1) by blast
    qed
    moreover have "drop (length body - 1) body \<noteq> ''=''" 
    proof
      assume h: "drop (length body - 1) body = ''=''"
      then have "CHR ''='' \<in> set (drop (length body - 1) body)" by simp
      then have "CHR ''='' \<in> set body" by (rule in_set_dropD)
      then show False using assms(1) by blast
    qed
    ultimately show ?thesis using 1 by (simp add: strip_padding_def)
  next
    case 2
    have "drop (length body - 1) (body @ ''='') \<noteq> ''==''"
    proof
      assume h: "drop (length body - 1) (body @ ''='') = ''==''"
      then have "drop (length body - 1) body = ''=''" by (cases "length body") auto
      then have "CHR ''='' \<in> set (drop (length body - 1) body)" by simp
      then have "CHR ''='' \<in> set body" by (rule in_set_dropD)
      then show False using assms(1) by blast
    qed
    then show ?thesis using 2 by (simp add: strip_padding_def)
  next
    case 3
    then show ?thesis by (simp add: strip_padding_def numeral_2_eq_2)
  qed
qed

lemma mod4_add: "(4 * d + r) mod 4 = r mod (4::nat)"
  by (rule mod_mult_self4)

lemma pad_cases:
  fixes n :: nat
  defines "k \<equiv> (3 - n mod 3) mod 3"
  defines "m \<equiv> 4 * (n div 3) + (if n mod 3 = 0 then 0 else n mod 3 + 1)"
  shows "k \<le> 2" "(m + k) mod 4 = 0" "m mod 4 \<noteq> 1"
proof -
  consider "n mod 3 = 0" | "n mod 3 = 1" | "n mod 3 = 2" by linarith
  then have "k \<le> 2 \<and> (m + k) mod 4 = 0 \<and> m mod 4 \<noteq> 1"
  proof cases
    case 1
    then have "k = 0" "m = 4 * (n div 3) + 0" by (simp_all add: k_def m_def)
    then show ?thesis by (simp only: mod4_add add_0_right) simp
  next
    case 2
    then have "k = 2" "m = 4 * (n div 3) + 2" "m + k = 4 * (n div 3) + 4"
      by (simp_all add: k_def m_def)
    then show ?thesis by (simp only: mod4_add) simp
  next
    case 3
    then have "k = 1" "m = 4 * (n div 3) + 3" "m + k = 4 * (n div 3) + 4"
      by (simp_all add: k_def m_def)
    then show ?thesis by (simp only: mod4_add) simp
  qed
  then show "k \<le> 2" "(m + k) mod 4 = 0" "m mod 4 \<noteq> 1" by simp_all
qed

lemma atob_btoa: "atob (btoa s) = Inr s"
proof -
  define bs where "bs = map (of_char :: char \<Rightarrow> nat) s"
  define sx where "sx = bytes_sextets bs"
  define body where "body = map b64_char sx"
  define k where "k = (3 - length s mod 3) mod 3"
  have bs: "\<forall>b \<in> set bs. b < 256" by (auto simp: bs_def)
  have sx: "\<forall>j \<in> set sx. j < 64" unfolding sx_def using bs by (rule bytes_sextets_bound)
  have btoa: "btoa s = body @ replicate k (CHR ''='')"
    by (simp add: btoa_def body_def sx_def bs_def k_def)
  have body_eq: "\<forall>c \<in> set body. c \<noteq> CHR ''=''"
    and body_ws: "\<forall>c \<in> set body. \<not> is_ascii_whitespace c"
    using sx by (auto simp: body_def b64_char_props)
  have pad_ws: "\<not> is_ascii_whitespace (CHR ''='')" by (simp add: is_ascii_whitespace_def)
  have filt: "filter (\<lambda>c. \<not> is_ascii_whitespace c) (btoa s) = btoa s"
    unfolding btoa using body_ws pad_ws by (auto simp: filter_id_conv)
  have len_body: "length body = 4 * (length s div 3) + (if length s mod 3 = 0 then 0 else length s mod 3 + 1)"
    by (simp add: body_def sx_def bs_def length_bytes_sextets)
  have k2: "k \<le> 2" unfolding k_def by (rule pad_cases(1))
  have len4: "length (btoa s) mod 4 = 0"
    unfolding btoa using len_body pad_cases(2) [of "length s"] by (simp add: k_def)
  have strip: "strip_padding (btoa s) = body"
    unfolding btoa using body_eq k2 by (rule strip_padding_btoa)
  have len1: "length body mod 4 \<noteq> 1" using len_body pad_cases(3) [of "length s"] by simp
  have dec: "those_list (map b64_index body) = Some sx"
    unfolding body_def using sx by (rule those_list_index)
  have inv: "map char_of (sextets_bytes sx) = s"
    unfolding sx_def using sextets_bytes_inverse [OF bs] by (simp add: bs_def comp_def)
  show ?thesis
    unfolding atob_def filt using len4 strip len1 dec inv by (simp add: Let_def)
qed

subsection \<open>Encoding followed by decoding\<close>

lemma int16_view_pcm16_bytes: "int16_view (pcm16_bytes xs) = map pcm_word xs"
  by (induction xs) (simp_all add: pcm16_bytes_def int16_view_bytes)

lemma length_pcm16_bytes: "length (pcm16_bytes xs) = 2 * length xs"
  by (induction xs) (simp_all add: pcm16_bytes_def int16_bytes_def)

lemma atob_float32ToBase64PCM16:
  "atob (float32ToBase64PCM16 xs) = Inr (map fromCharCode (pcm16_bytes xs))"
  by (simp add: float32ToBase64PCM16_def atob_btoa binary_of_bytes_map)

lemma decode_encode: "base64PCM16ToFloat32 (float32ToBase64PCM16 xs) = Inr (map codec_round xs)"
  by (simp add: base64PCM16ToFloat32_def atob_float32ToBase64PCM16 comp_def
      charCodeAt_fromCharCode length_pcm16_bytes int16_view_pcm16_bytes codec_round_def)

subsection \<open>Rounding to binary floating point\<close>

lemma round_even_cases:
  "round_even y = \<lfloor>y\<rfloor> \<and> y - of_int \<lfloor>y\<rfloor> \<le> 1 / 2
   \<or> round_even y = \<lfloor>y\<rfloor> + 1 \<and> 1 / 2 \<le> y - of_int \<lfloor>y\<rfloor>"
  unfolding round_even_def Let_def by simp

lemma round_even_bounds: "y - 1 / 2 \<le> of_int (round_even y) \<and> of_int (round_even y) \<le> y + 1 / 2"
proof -
  have a: "of_int \<lfloor>y\<rfloor> \<le> y" "y < of_int \<lfloor>y\<rfloor> + 1" by linarith+
  from round_even_cases [of y] show ?thesis
  proof
    assume "round_even y = \<lfloor>y\<rfloor> \<and> y - of_int \<lfloor>y\<rfloor> \<le> 1 / 2"
    then have "real_of_int (round_even y) = of_int \<lfloor>y\<rfloor>" and "y - of_int \<lfloor>y\<rfloor> \<le> 1 / 2"
      by simp_all
    then show ?thesis using a by linarith
  next
    assume "round_even y = \<lfloor>y\<rfloor> + 1 \<and> 1 / 2 \<le> y - of_int \<lfloor>y\<rfloor>"
    then have "real_of_int (round_even y) = of_int \<lfloor>y\<rfloor> + 1" and "1 / 2 \<le> y - of_int \<lfloor>y\<rfloor>"
      by simp_all
    then show ?thesis using a by linarith
  qed
qed

lemma round_even_of_int [simp]: "round_even (of_int n) = n"
  by (simp add: round_even_def)

lemma round_even_mono: "x \<le> y \<Longrightarrow> round_even x \<le> round_even y"
proof -
  assume xy: "x \<le> y"
  have fl: "\<lfloor>x\<rfloor> \<le> \<lfloor>y\<rfloor>" using xy by (rule floor_mono)
  show ?thesis
  proof (cases "\<lfloor>x\<rfloor> = \<lfloor>y\<rfloor>")
    case True
    then have "x - of_int \<lfloor>x\<rfloor> \<le> y - of_int \<lfloor>y\<rfloor>" using xy by simp
    then show ?thesis using True unfolding round_even_def Let_def by simp
  next
    case False
    then have "\<lfloor>x\<rfloor> + 1 \<le> \<lfloor>y\<rfloor>" using fl by simp
    moreover have "round_even x \<le> \<lfloor>x\<rfloor> + 1" using round_even_cases [of x] by linarith
    moreover have "\<lfloor>y\<rfloor> \<le> round_even y" using round_even_cases [of y] by linarith
    ultimately show ?thesis by linarith
  qed
qed

lemma floor_minus_nonint: "y \<noteq> of_int \<lfloor>y\<rfloor> \<Longrightarrow> \<lfloor>- y\<rfloor> = - \<lfloor>y\<rfloor> - 1"
proof (rule floor_unique)
  assume n: "y \<noteq> of_int \<lfloor>y\<rfloor>"
  have "of_int \<lfloor>y\<rfloor> \<le> y" "y < of_int \<lfloor>y\<rfloor> + 1" by linarith+
  then have "of_int \<lfloor>y\<rfloor> < y" using n by linarith
  then show "of_int (- \<lfloor>y\<rfloor> - 1) \<le> - y" using \<open>y < of_int \<lfloor>y\<rfloor> + 1\<close> by simp
  show "- y < of_int (- \<lfloor>y\<rfloor> - 1) + 1" using \<open>of_int \<lfloor>y\<rfloor> < y\<close> by simp
qed

lemma round_even_minus: "round_even (- y) = - round_even y"
proof (cases "y = of_int \<lfloor>y\<rfloor>")
  case True
  then obtain n :: int where n: "y = of_int n" ..
  have "round_even (real_of_int (- n)) = - round_even (real_of_int n)"
    by (simp only: round_even_of_int)
  then show ?thesis by (simp add: n)
next
  case False
  then have f: "\<lfloor>- y\<rfloor> = - \<lfloor>y\<rfloor> - 1" by (rule floor_minus_nonint)
  have e: "even (- \<lfloor>y\<rfloor> - 1) = odd \<lfloor>y\<rfloor>" by simp
  have d: "- y - of_int (- \<lfloor>y\<rfloor> - 1) = 1 - (y - of_int \<lfloor>y\<rfloor>)" by simp
  define t where "t = y - of_int \<lfloor>y\<rfloor>"
  show ?thesis
    unfolding round_even_def Let_def f e d t_def [symmetric]
    by (cases "t < 1 / 2"; cases "1 / 2 < t"; cases "even \<lfloor>y\<rfloor>") simp_all
qed

lemma float_exp_bounds:
  assumes "x \<noteq> 0"
  shows "2 powi float_exp x \<le> \<bar>x\<bar>" and "\<bar>x\<bar> < 2 powi (float_exp x + 1)"
proof -
  have p: "0 < \<bar>x\<bar>" using assms by simp
  have r: "real_of_int (float_exp x) + 1 = real_of_int (float_exp x + 1)" by simp
  have "2 powr real_of_int (float_exp x) \<le> \<bar>x\<bar> \<and> \<bar>x\<bar> < 2 powr (real_of_int (float_exp x) + 1)"
    using floor_log_eq_powr_iff [of "\<bar>x\<bar>" 2 "float_exp x"] p by (simp add: float_exp_def)
  then have "2 powr real_of_int (float_exp x) \<le> \<bar>x\<bar>"
    and "\<bar>x\<bar> < 2 powr real_of_int (float_exp x + 1)" unfolding r by simp_all
  then show "2 powi float_exp x \<le> \<bar>x\<bar>" and "\<bar>x\<bar> < 2 powi (float_exp x + 1)"
    by (simp_all only: powr_real_of_int' [of 2, simplified])
qed

lemma float_exp_unique:
  assumes "2 powi k \<le> \<bar>x\<bar>" and "\<bar>x\<bar> < 2 powi (k + 1)"
  shows "float_exp x = k"
proof -
  have "(0::real) < 2 powi k" by simp
  then have p: "0 < \<bar>x\<bar>" using assms(1) by linarith
  have r: "real_of_int k + 1 = real_of_int (k + 1)" by simp
  have "2 powr real_of_int k \<le> \<bar>x\<bar> \<and> \<bar>x\<bar> < 2 powr real_of_int (k + 1)"
    using assms by (simp only: powr_real_of_int' [of 2, simplified])
  then have "2 powr real_of_int k \<le> \<bar>x\<bar> \<and> \<bar>x\<bar> < 2 powr (real_of_int k + 1)"
    unfolding r .
  then show ?thesis
    using floor_log_eq_powr_iff [of "\<bar>x\<bar>" 2 k] p by (simp add: float_exp_def)
qed

lemma ulp_pos [simp]: "0 < ulp p x"
  by (simp add: ulp_def)

lemma ulp_times:
  "ulp p x * 2 powi (p - 1) = 2 powi float_exp x"
  "ulp p x * 2 powi p = 2 powi (float_exp x + 1)"
  by (simp_all add: ulp_def flip: power_int_add)

lemma float_exp_minus [simp]: "float_exp (- x) = float_exp x"
  by (simp add: float_exp_def)

lemma ulp_minus [simp]: "ulp p (- x) = ulp p x"
  by (simp add: ulp_def)

lemma round_float_minus: "round_float p (- x) = - round_float p x"
  by (simp add: round_float_def round_even_minus)

lemma round_float_error: "\<bar>round_float p x - x\<bar> \<le> ulp p x / 2"
proof (cases "x = 0")
  case True
  then show ?thesis using ulp_pos [of p x] by (simp add: round_float_def less_imp_le)
next
  case False
  define u where "u = ulp p x"
  have u: "0 < u" by (simp add: u_def)
  define n where "n = real_of_int (round_even (x / u))"
  have b: "x / u - 1 / 2 \<le> n" "n \<le> x / u + 1 / 2"
    using round_even_bounds [of "x / u"] by (simp_all add: n_def)
  have "(x / u - 1 / 2) * u \<le> n * u" "n * u \<le> (x / u + 1 / 2) * u"
    using b u by (simp_all add: mult_right_mono less_imp_le del: times_divide_eq_left)
  moreover have "(x / u - 1 / 2) * u = x - u / 2" "(x / u + 1 / 2) * u = x + u / 2"
    using u by (simp_all add: algebra_simps)
  ultimately have "x - u / 2 \<le> n * u" "n * u \<le> x + u / 2" by simp_all
  then have "\<bar>n * u - x\<bar> \<le> u / 2" by linarith
  then show ?thesis using False by (simp add: round_float_def n_def u_def)
qed

lemma of_int_two_powi: "0 \<le> k \<Longrightarrow> (2::real) powi k = of_int (2 ^ nat k)"
  by (simp add: power_int_def)

lemma round_float_binade:
  assumes "0 < x" and "1 \<le> p"
  shows "2 powi float_exp x \<le> round_float p x" and "round_float p x \<le> 2 powi (float_exp x + 1)"
proof -
  define u where "u = ulp p x"
  have u: "0 < u" by (simp add: u_def)
  have x0: "x \<noteq> 0" and ax: "\<bar>x\<bar> = x" using assms(1) by simp_all
  have lo: "2 powi float_exp x \<le> x" and hi: "x < 2 powi (float_exp x + 1)"
    using float_exp_bounds [OF x0] ax by simp_all
  have "u * 2 powi (p - 1) \<le> x" using lo by (simp add: u_def ulp_times)
  then have "2 powi (p - 1) \<le> x / u" using u by (simp add: pos_le_divide_eq mult.commute)
  then have "real_of_int (2 ^ nat (p - 1)) \<le> x / u"
    using assms(2) by (simp add: of_int_two_powi)
  then have "round_even (real_of_int (2 ^ nat (p - 1))) \<le> round_even (x / u)"
    by (rule round_even_mono)
  then have "real_of_int (2 ^ nat (p - 1)) \<le> real_of_int (round_even (x / u))"
    by (simp only: round_even_of_int of_int_le_iff)
  then have "2 powi (p - 1) \<le> real_of_int (round_even (x / u))"
    using assms(2) by (simp add: of_int_two_powi)
  then have "2 powi (p - 1) * u \<le> real_of_int (round_even (x / u)) * u"
    using u by (simp add: mult_right_mono less_imp_le)
  then show "2 powi float_exp x \<le> round_float p x"
    using x0 ulp_times(1) [of p x] by (simp add: round_float_def u_def mult.commute)
  have "x \<le> u * 2 powi p" using hi by (simp add: u_def ulp_times)
  then have "x / u \<le> 2 powi p" using u by (simp add: pos_divide_le_eq mult.commute)
  then have "x / u \<le> real_of_int (2 ^ nat p)"
    using assms(2) by (simp add: of_int_two_powi)
  then have "round_even (x / u) \<le> round_even (real_of_int (2 ^ nat p))"
    by (rule round_even_mono)
  then have "real_of_int (round_even (x / u)) \<le> real_of_int (2 ^ nat p)"
    by (simp only: round_even_of_int of_int_le_iff)
  then have "real_of_int (round_even (x / u)) \<le> 2 powi p"
    using assms(2) by (simp add: of_int_two_powi)
  then have "real_of_int (round_even (x / u)) * u \<le> 2 powi p * u"
    using u by (simp add: mult_right_mono less_imp_le)
  then show "round_float p x \<le> 2 powi (float_exp x + 1)"
    using x0 ulp_times(2) [of p x] by (simp add: round_float_def u_def mult.commute)
qed

lemma float_exp_mono: "0 < x \<Longrightarrow> x \<le> y \<Longrightarrow> float_exp x \<le> float_exp y"
  unfolding float_exp_def by (intro floor_mono) (simp add: log_le_cancel_iff)

lemma round_float_pos_mono:
  assumes "0 < x" and "x \<le> y" and "1 \<le> p"
  shows "round_float p x \<le> round_float p y"
proof -
  have y: "0 < y" using assms by simp
  have e: "float_exp x \<le> float_exp y" using assms(1,2) by (rule float_exp_mono)
  show ?thesis
  proof (cases "float_exp x = float_exp y")
    case True
    then have u: "ulp p x = ulp p y" by (simp add: ulp_def)
    have "x / ulp p y \<le> y / ulp p y" using assms(2) by (simp add: divide_right_mono less_imp_le)
    then have "round_even (x / ulp p y) \<le> round_even (y / ulp p y)" by (rule round_even_mono)
    then have "real_of_int (round_even (x / ulp p y)) * ulp p y
        \<le> real_of_int (round_even (y / ulp p y)) * ulp p y"
      by (simp add: mult_right_mono less_imp_le)
    then show ?thesis using assms(1) y by (simp add: round_float_def u)
  next
    case False
    then have "float_exp x + 1 \<le> float_exp y" using e by simp
    then have "(2::real) powi (float_exp x + 1) \<le> 2 powi float_exp y"
      by (intro power_int_increasing) simp_all
    then show ?thesis
      using round_float_binade(2) [OF assms(1,3)] round_float_binade(1) [OF y assms(3)]
      by linarith
  qed
qed

lemma round_float_nonneg: "0 \<le> x \<Longrightarrow> 1 \<le> p \<Longrightarrow> 0 \<le> round_float p x"
proof (cases "x = 0")
  case True
  then show ?thesis by (simp add: round_float_def)
next
  case False
  assume "0 \<le> x" "1 \<le> p"
  then have "0 < x" using False by simp
  from round_float_binade(1) [OF this \<open>1 \<le> p\<close>] show ?thesis
    using zero_less_power_int [of "2::real" "float_exp x"] by linarith
qed

lemma round_float_mono:
  assumes "x \<le> y" and "1 \<le> p"
  shows "round_float p x \<le> round_float p y"
proof -
  consider "0 < x" | "x \<le> 0" "0 \<le> y" | "y < 0" by linarith
  then show ?thesis
  proof cases
    case 1
    then show ?thesis using assms by (rule round_float_pos_mono)
  next
    case 2
    have "0 \<le> round_float p (- x)" using 2(1) assms(2) by (intro round_float_nonneg) simp_all
    then have "round_float p x \<le> 0" by (simp add: round_float_minus)
    moreover have "0 \<le> round_float p y" using 2(2) assms(2) by (rule round_float_nonneg)
    ultimately show ?thesis by linarith
  next
    case 3
    have "round_float p (- y) \<le> round_float p (- x)"
      using 3 assms by (intro round_float_pos_mono) simp_all
    then show ?thesis by (simp add: round_float_minus)
  qed
qed

lemma two_powi_less_D: "(2::real) powi a < 2 powi b \<Longrightarrow> a < b"
proof (rule ccontr)
  assume l: "(2::real) powi a < 2 powi b" and "\<not> a < b"
  then have "b \<le> a" by simp
  then have "(2::real) powi b \<le> 2 powi a" by (intro power_int_increasing) simp_all
  with l show False by linarith
qed

lemma round_float_fixed:
  assumes "x = of_int m * 2 powi j" and "\<bar>m\<bar> < 2 ^ nat p" and "0 \<le> p"
  shows "round_float p x = x"
proof (cases "x = 0")
  case True
  then show ?thesis by (simp add: round_float_def)
next
  case False
  have m0: "m \<noteq> 0" using False assms(1) by auto
  have "\<bar>x\<bar> = real_of_int \<bar>m\<bar> * 2 powi j" by (simp add: assms(1) abs_mult)
  also have "\<dots> < real_of_int (2 ^ nat p) * 2 powi j"
  proof (rule mult_strict_right_mono)
    show "real_of_int \<bar>m\<bar> < real_of_int (2 ^ nat p)"
      using assms(2) by (simp only: of_int_less_iff)
    show "(0::real) < 2 powi j" by simp
  qed
  also have "\<dots> = 2 powi (p + j)"
    using assms(3) by (simp add: power_int_add of_int_two_powi)
  finally have "\<bar>x\<bar> < 2 powi (p + j)" .
  moreover have "2 powi float_exp x \<le> \<bar>x\<bar>" using False by (rule float_exp_bounds)
  ultimately have "(2::real) powi float_exp x < 2 powi (p + j)" by linarith
  then have "float_exp x < p + j" by (rule two_powi_less_D)
  then have k: "0 \<le> j - (float_exp x - (p - 1))" by simp
  define k where "k = j - (float_exp x - (p - 1))"
  have "x / ulp p x = of_int m * (2 powi j / 2 powi (float_exp x - (p - 1)))"
    by (simp add: assms(1) ulp_def)
  also have "2 powi j / 2 powi (float_exp x - (p - 1)) = (2::real) powi k"
    by (simp add: k_def power_int_diff)
  also have "\<dots> = of_int (2 ^ nat k)" using k by (simp add: k_def of_int_two_powi)
  finally have "x / ulp p x = of_int (m * 2 ^ nat k)" by simp
  then have "real_of_int (round_even (x / ulp p x)) = x / ulp p x"
    by (simp only: round_even_of_int)
  moreover have "ulp p x \<noteq> 0" using ulp_pos [of p x] by linarith
  ultimately show ?thesis using False by (simp add: round_float_def)
qed

lemma round_float_eval:
  assumes "2 powi k \<le> \<bar>x\<bar>" and "\<bar>x\<bar> < 2 powi (k + 1)"
  shows "round_float p x = of_int (round_even (x / 2 powi (k - (p - 1)))) * 2 powi (k - (p - 1))"
proof -
  have "float_exp x = k" using assms by (rule float_exp_unique)
  moreover have "x \<noteq> 0"
  proof
    assume "x = 0"
    then have "(2::real) powi k \<le> 0" using assms(1) by simp
    moreover have "(0::real) < 2 powi k" by simp
    ultimately show False by linarith
  qed
  ultimately show ?thesis by (simp add: round_float_def ulp_def)
qed

lemma to_double_min_quotient:
  "to_double (- (32768 / 32767)) = - (35185445863425 / 35184372088832)"
  unfolding to_double_def
  by (subst round_float_eval [of 0]) (simp_all add: round_even_def Let_def)

lemma fround_min_quotient:
  "fround (- (35185445863425 / 35184372088832)) = - (32769 / 32768)"
  unfolding fround_def
  by (subst round_float_eval [of 0]) (simp_all add: round_even_def Let_def)

lemma to_double_unit_quotient:
  "to_double (1 / 32767) = 35185445863425 / 1152921504606846976"
  unfolding to_double_def
  by (subst round_float_eval [of "- 15"]) (simp_all add: round_even_def Let_def)

lemma fround_unit_quotient:
  "fround (35185445863425 / 1152921504606846976) = 32769 / 1073741824"
  unfolding fround_def
  by (subst round_float_eval [of "- 15"]) (simp_all add: round_even_def Let_def)

lemma f32_mono: "x \<le> y \<Longrightarrow> f32 x \<le> f32 y"
  by (simp add: f32_def fround_def to_double_def round_float_mono)

lemma to_double_fixed:
  assumes "x = of_int m * 2 powi j" and "\<bar>m\<bar> < 2 ^ 24"
  shows "to_double x = x"
proof -
  have "\<bar>m\<bar> < 2 ^ nat 53" using assms(2) by simp
  then show ?thesis unfolding to_double_def using assms(1) by (intro round_float_fixed [of x m j]) simp_all
qed

lemma fround_fixed:
  assumes "x = of_int m * 2 powi j" and "\<bar>m\<bar> < 2 ^ 24"
  shows "fround x = x"
  unfolding fround_def using assms by (intro round_float_fixed [of x m j]) simp_all

lemma f32_fixed:
  assumes "x = of_int m * 2 powi j" and "\<bar>m\<bar> < 2 ^ 24"
  shows "f32 x = x"
  using to_double_fixed [OF assms] fround_fixed [OF assms] by (simp add: f32_def)

lemma f32_zero [simp]: "f32 0 = 0"
  by (simp add: f32_def to_double_def fround_def round_float_def)

lemma two_power_mod_32767: "(2::int) ^ a mod 32767 \<le> 16384"
proof -
  have a: "a = 15 * (a div 15) + a mod 15" by simp
  have "(2::int) ^ a = (2 ^ 15) ^ (a div 15) * 2 ^ (a mod 15)"
    by (subst a) (simp only: power_add power_mult)
  then have "(2::int) ^ a mod 32767 = ((2 ^ 15) ^ (a div 15) mod 32767) * (2 ^ (a mod 15)) mod 32767"
    by (simp add: mod_mult_left_eq)
  also have "(2 ^ 15 :: int) ^ (a div 15) mod 32767 = (2 ^ 15 mod 32767) ^ (a div 15) mod 32767"
    by (simp only: power_mod)
  also have "(2 ^ 15 :: int) mod 32767 = 1" by simp
  finally have e: "(2::int) ^ a mod 32767 = 2 ^ (a mod 15) mod 32767" by simp
  have "a mod 15 \<le> 14" by simp
  then have "(2::int) ^ (a mod 15) \<le> 2 ^ 14" by (intro power_increasing) simp_all
  then have b: "(2::int) ^ (a mod 15) \<le> 16384" by simp
  then have "(2::int) ^ (a mod 15) mod 32767 = 2 ^ (a mod 15)" by simp
  then show ?thesis using e b by simp
qed

lemma round_float_rel_error:
  assumes "0 < x"
  shows "\<bar>round_float 53 x - x\<bar> \<le> x * 2 powi (- 53)"
proof -
  have x0: "x \<noteq> 0" and ax: "\<bar>x\<bar> = x" using assms by simp_all
  have "2 powi float_exp x \<le> x" using float_exp_bounds(1) [OF x0] ax by simp
  then have "2 powi float_exp x * 2 powi (- 53) \<le> x * 2 powi (- 53)"
    by (intro mult_right_mono) simp_all
  moreover have "ulp 53 x / 2 = 2 powi float_exp x * 2 powi (- 53)"
  proof -
    have "float_exp x - 52 = float_exp x + (- 53) + 1" by simp
    then have "(2::real) powi (float_exp x - 52) = 2 powi float_exp x * 2 powi (- 53) * 2"
      by (simp only: power_int_add [of "2::real", simplified] power_int_1_right)
    then show ?thesis by (simp add: ulp_def)
  qed
  ultimately show ?thesis using round_float_error [of 53 x] by linarith
qed

lemma nonneg_lower:
  assumes s: "s = of_int m * 2 powi j" and m0: "0 < m" and m24: "m < 2 ^ 24"
    and s1: "s \<le> 1" and q: "q = \<lfloor>s * 32767\<rfloor>"
  shows "s - f32 (of_int q / 32767) \<le> 1 / 32767"
proof (cases "q = 0")
  case True
  then have "s * 32767 < 1" using q by linarith
  then show ?thesis using True by simp
next
  case False
  have spos: "0 < s" using s m0 by simp
  have "0 \<le> s * 32767" using spos by simp
  then have "0 \<le> q" unfolding q by simp
  then have q1: "1 \<le> q" using False by simp
  define r where "r = real_of_int q / 32767"
  define f where "f = s * 32767 - real_of_int q"
  have f0: "0 \<le> f" and f1: "f < 1" unfolding f_def q by linarith+
  have rpos: "0 < r" using q1 by (simp add: r_def)
  have rs: "r = s - f / 32767" by (simp add: r_def f_def field_simps)
  have r_le_s: "r \<le> s" using rs f0 by simp
  define y where "y = to_double r"
  have sfix: "to_double s = s" using s m0 m24 by (intro to_double_fixed [of s m j]) simp_all
  have y_le_s: "y \<le> s"
    using round_float_mono [OF r_le_s, of 53] sfix by (simp add: y_def to_double_def)
  have ypos: "0 < y"
  proof -
    have "(0::real) < 2 powi float_exp r" by simp
    moreover have "2 powi float_exp r \<le> round_float 53 r"
      using round_float_binade(1) [OF rpos, of 53] by simp
    ultimately show ?thesis unfolding y_def to_double_def by linarith
  qed
  have yr: "\<bar>y - r\<bar> \<le> r * 2 powi (- 53)"
    using round_float_rel_error [OF rpos] by (simp add: y_def to_double_def)
  define e where "e = float_exp y"
  have y0: "y \<noteq> 0" and ay: "\<bar>y\<bar> = y" using ypos by simp_all
  have ylo: "2 powi e \<le> y" and yhi: "y < 2 powi (e + 1)"
    using float_exp_bounds [OF y0] ay by (simp_all add: e_def)
  have "(2::real) powi e \<le> 1" using ylo y_le_s s1 by linarith
  then have "(2::real) powi e < 2 powi 1" by simp
  then have e0: "e \<le> 0" using two_powi_less_D [of e 1] by simp
  have "s < real_of_int (2 ^ 24) * 2 powi j"
    unfolding s using m24 by (intro mult_strict_right_mono) (simp_all only: of_int_less_iff zero_less_power_int zero_less_numeral)
  also have "\<dots> = 2 powi (24 + j)" by (simp add: power_int_add)
  finally have "(2::real) powi e < 2 powi (24 + j)" using ylo y_le_s by linarith
  then have ej: "e - 23 \<le> j" using two_powi_less_D [of e "24 + j"] by simp
  define a where "a = nat (23 - e)"
  define W where "W = (2::int) ^ a"
  define w where "w = (2::real) powi (e - 23)"
  have wpos: "0 < w" by (simp add: w_def)
  have wW: "w * real_of_int W = 1"
  proof -
    have "real_of_int W = 2 powi (23 - e)" using e0 by (simp add: W_def a_def power_int_def)
    then have "w * real_of_int W = 2 powi ((e - 23) + (23 - e))"
      by (simp only: w_def power_int_add [of "2::real", simplified])
    then show ?thesis by simp
  qed
  have Wpos: "0 < W" by (simp add: W_def)
  define M where "M = m * 2 ^ nat (j - (e - 23))"
  have sM: "s = real_of_int M * w"
  proof -
    have "(2::real) powi j = 2 powi (j - (e - 23)) * 2 powi (e - 23)"
      by (simp flip: power_int_add)
    also have "(2::real) powi (j - (e - 23)) = of_int (2 ^ nat (j - (e - 23)))"
      using ej by (simp add: power_int_def)
    finally show ?thesis by (simp add: s M_def w_def)
  qed
  define nd where "nd = round_even (y / w)"
  define d where "d = f32 r"
  have dw: "d = real_of_int nd * w"
    using y0 by (simp add: d_def f32_def fround_def round_float_def ulp_def nd_def w_def
        flip: y_def e_def)
  have dy: "\<bar>d - y\<bar> \<le> w / 2"
    using round_float_error [of 24 y]
    by (simp add: d_def f32_def fround_def ulp_def w_def flip: y_def e_def)
  have Wp: "real_of_int W = 2 powi (23 - e)"
    using e0 by (simp add: W_def a_def power_int_def)
  have rW: "r * real_of_int W < 2 ^ 25"
  proof -
    have "r - r * 2 powi (- 53) \<le> y" using yr by linarith
    moreover have "r / 2 \<le> r - r * 2 powi (- 53)" using rpos by (simp add: power_int_minus field_simps)
    ultimately have "r < 2 * 2 powi (e + 1)" using yhi by linarith
    then have "r * real_of_int W < 2 * 2 powi (e + 1) * real_of_int W"
      using Wpos by (intro mult_strict_right_mono) simp_all
    moreover have "2 * (2::real) powi (e + 1) * 2 powi (23 - e) = 2 * 2 powi ((e + 1) + (23 - e))"
      by (simp only: power_int_add [of "2::real", simplified] mult.assoc)
    moreover have "2 * (2::real) powi ((e + 1) + (23 - e)) = 2 ^ 25" by simp
    ultimately show ?thesis by (simp only: Wp)
  qed
  show ?thesis
  proof (rule ccontr)
    assume "\<not> s - f32 (real_of_int q / 32767) \<le> 1 / 32767"
    then have far: "1 / 32767 < s - d" by (simp add: d_def r_def)
    define n where "n = M - nd"
    have sd: "s - d = real_of_int n * w" by (simp add: sM dw n_def algebra_simps)
    have "1 < 32767 * (real_of_int n * w)" using far sd by simp
    then have "1 * real_of_int W < 32767 * (real_of_int n * w) * real_of_int W"
      using Wpos by (intro mult_strict_right_mono) simp_all
    also have "32767 * (real_of_int n * w) * real_of_int W = 32767 * real_of_int n * (w * real_of_int W)"
      by simp
    finally have "real_of_int W < real_of_int (32767 * n)" by (simp add: wW)
    then have nW: "W < 32767 * n" by (simp only: of_int_less_iff)
    define F where "F = 32767 * M - q * W"
    have FW: "real_of_int F = f * real_of_int W"
    proof -
      have "s * real_of_int W = real_of_int M * (w * real_of_int W)" by (simp add: sM)
      then have "s * real_of_int W = real_of_int M" by (simp add: wW)
      then show ?thesis by (simp add: F_def f_def algebra_simps)
    qed
    have "f * real_of_int W < 1 * real_of_int W"
      using f1 Wpos by (intro mult_strict_right_mono) simp_all
    then have "real_of_int F < real_of_int W" using FW by simp
    then have FltW: "F < W" by (simp only: of_int_less_iff)
    have "r - d \<le> r * 2 powi (- 53) + w / 2" using yr dy by linarith
    moreover have "r - d = real_of_int n * w - f / 32767" using rs sd by linarith
    ultimately have "real_of_int n * w - f / 32767 \<le> r * 2 powi (- 53) + w / 2" by simp
    then have "(real_of_int n * w - f / 32767) * (32767 * real_of_int W)
        \<le> (r * 2 powi (- 53) + w / 2) * (32767 * real_of_int W)"
      using Wpos by (intro mult_right_mono) simp_all
    moreover have "(real_of_int n * w - f / 32767) * (32767 * real_of_int W)
        = 32767 * real_of_int n * (w * real_of_int W) - f * real_of_int W"
      by (simp add: algebra_simps)
    moreover have "(r * 2 powi (- 53) + w / 2) * (32767 * real_of_int W)
        = 32767 * 2 powi (- 53) * (r * real_of_int W) + 32767 / 2 * (w * real_of_int W)"
      by (simp add: algebra_simps)
    ultimately have "32767 * real_of_int n - real_of_int F
        \<le> 32767 * 2 powi (- 53) * (r * real_of_int W) + 32767 / 2"
      by (simp add: wW FW)
    moreover have "32767 * 2 powi (- 53) * (r * real_of_int W) < 32767 * 2 powi (- 53) * 2 ^ 25"
      using rW by (intro mult_strict_left_mono) simp_all
    moreover have "32767 * 2 powi (- 53) * 2 ^ 25 \<le> (1 / 2 :: real)"
      by (simp add: power_int_minus)
    ultimately have "32767 * real_of_int n - real_of_int F < 16384" by linarith
    then have "real_of_int (32767 * n - F) < real_of_int 16384" by simp
    then have nF: "32767 * n - F < 16384" by (simp only: of_int_less_iff)
    define c where "c = 32767 * n - W"
    have c: "1 \<le> c" "c \<le> 16382" using nW nF FltW by (simp_all add: c_def)
    have "W = 32767 * n - c" by (simp add: c_def)
    then have "W mod 32767 = (32767 * n - c) mod 32767" by simp
    also have "\<dots> = (- c) mod 32767"
      by (metis mod_mult_self4 uminus_add_conv_diff add.commute diff_conv_add_uminus)
    also have "\<dots> = 32767 - c" using c by (simp add: zmod_zminus1_eq_if)
    finally have "W mod 32767 \<ge> 16385" using c by simp
    moreover have "W mod 32767 \<le> 16384" unfolding W_def by (rule two_power_mod_32767)
    ultimately show False by simp
  qed
qed

subsection \<open>The round trip in floating point\<close>

lemma clamp_sample_float32:
  assumes "is_float32 x"
  shows "\<exists>m j. clamp_sample x = of_int m * 2 powi j \<and> \<bar>m\<bar> < 2 ^ 24"
proof -
  consider "x < - 1" | "1 < x" | "- 1 \<le> x" "x \<le> 1" by linarith
  then show ?thesis
  proof cases
    case 1
    then have "clamp_sample x = of_int (- 1) * 2 powi 0" by (simp add: clamp_sample_def)
    then show ?thesis by (intro exI [of _ "- 1"] exI [of _ 0]) simp
  next
    case 2
    then have "clamp_sample x = of_int 1 * 2 powi 0" by (simp add: clamp_sample_def)
    then show ?thesis by (intro exI [of _ 1] exI [of _ 0]) simp
  next
    case 3
    then have "clamp_sample x = x" by (simp add: clamp_sample_def)
    then show ?thesis using assms unfolding is_float32_def by auto
  qed
qed

lemma f32_between:
  assumes "real_of_int a / 32768 \<le> r" and "r \<le> real_of_int b / 32768"
    and "\<bar>a\<bar> < 2 ^ 24" and "\<bar>b\<bar> < 2 ^ 24"
  shows "real_of_int a / 32768 \<le> f32 r \<and> f32 r \<le> real_of_int b / 32768"
proof -
  have e: "real_of_int c / 32768 = of_int c * 2 powi (- 15)" for c :: int
    by (simp add: power_int_minus field_simps)
  have "f32 (real_of_int a / 32768) = real_of_int a / 32768"
    using f32_fixed [OF e assms(3)] .
  moreover have "f32 (real_of_int b / 32768) = real_of_int b / 32768"
    using f32_fixed [OF e assms(4)] .
  ultimately show ?thesis using f32_mono [OF assms(1)] f32_mono [OF assms(2)] by simp
qed

lemma f32_min_quotient: "f32 (- (32768 / 32767)) = - (32769 / 32768)"
  by (simp only: f32_def to_double_min_quotient fround_min_quotient)

lemma f32_unit_quotient: "f32 (1 / 32767) = 32769 / 1073741824"
  by (simp only: f32_def to_double_unit_quotient fround_unit_quotient)

lemma codec_round_quotient: "codec_round x = f32 (real_of_int (js_trunc (pcm_val x)) / 32767)"
  by (simp add: codec_round_def pcm_float_def sint_pcm_word)

lemma codec_round_error:
  assumes "is_float32 x"
  shows "\<bar>codec_round x - clamp_sample x\<bar> \<le> 1 / 32767"
proof -
  define s where "s = clamp_sample x"
  define q where "q = js_trunc (pcm_val x)"
  define d where "d = f32 (real_of_int q / 32767)"
  have cr: "codec_round x = d" by (simp add: codec_round_quotient d_def q_def)
  have sr: "- 1 \<le> s" "s \<le> 1" using clamp_sample_range [of x] by (simp_all add: s_def)
  have qr: "- 32768 \<le> q" "q \<le> 32767" using js_trunc_pcm_val_range [of x] by (simp_all add: q_def)
  obtain m j where mj: "s = of_int m * 2 powi j" "\<bar>m\<bar> < 2 ^ 24"
    using clamp_sample_float32 [OF assms] unfolding s_def by blast
  have "\<bar>d - s\<bar> \<le> 1 / 32767"
  proof (cases "s < 0")
    case True
    then have qc: "q = \<lceil>s * 32768\<rceil>"
      by (simp add: q_def pcm_val_def scale_sample_def js_trunc_def s_def)
    have c: "real_of_int q - 1 < s * 32768" "s * 32768 \<le> real_of_int q"
      unfolding qc by linarith+
    show ?thesis
    proof (cases "q = - 32768")
      case m: True
      then have "s = - 1" using c sr by simp
      then show ?thesis using m by (simp add: d_def f32_min_quotient)
    next
      case False
      then have q1: "- 32767 \<le> q" using qr by simp
      have "s * 32768 < 0" using True by simp
      then have "real_of_int q < 1" using c(1) by linarith
      then have q0: "q \<le> 0" by linarith
      have lo: "real_of_int (q - 1) / 32768 \<le> real_of_int q / 32767"
        using q1 by (simp add: field_simps)
      have hi: "real_of_int q / 32767 \<le> real_of_int q / 32768"
        using q0 by (simp add: field_simps)
      have "\<bar>q - 1\<bar> < 2 ^ 24" "\<bar>q\<bar> < 2 ^ 24" using q1 q0 by simp_all
      from f32_between [OF lo hi this]
      have "real_of_int (q - 1) / 32768 \<le> d" "d \<le> real_of_int q / 32768" by (simp_all add: d_def)
      moreover have "real_of_int (q - 1) / 32768 < s" "s \<le> real_of_int q / 32768"
        using c by (simp_all add: field_simps)
      ultimately have "\<bar>d - s\<bar> \<le> real_of_int q / 32768 - real_of_int (q - 1) / 32768"
        by linarith
      also have "\<dots> = 1 / 32768" by (simp add: field_simps)
      finally show ?thesis by simp
    qed
  next
    case False
    then have qf: "q = \<lfloor>s * 32767\<rfloor>"
      by (simp add: q_def pcm_val_def scale_sample_def js_trunc_def s_def)
    show ?thesis
    proof (cases "s = 0")
      case True
      then show ?thesis by (simp add: d_def qf)
    next
      case nz: False
      then have spos: "0 < s" using False by simp
      have mpos: "0 < m"
      proof (rule ccontr)
        assume "\<not> 0 < m"
        then have "real_of_int m \<le> 0" by simp
        then have "real_of_int m * 2 powi j \<le> 0" by (intro mult_nonpos_nonneg) simp_all
        then show False using spos mj(1) by simp
      qed
      have m24: "m < 2 ^ 24" using mj(2) by simp
      have low: "s - d \<le> 1 / 32767"
        unfolding d_def using mj(1) mpos m24 sr(2) qf by (rule nonneg_lower)
      have "real_of_int q \<le> s * 32767" unfolding qf by linarith
      then have "real_of_int q / 32767 \<le> s" by (simp add: field_simps)
      then have "d \<le> f32 s" unfolding d_def by (rule f32_mono)
      moreover have "f32 s = s" using mj by (rule f32_fixed)
      ultimately show ?thesis using low by linarith
    qed
  qed
  then show ?thesis by (simp add: cr s_def)
qed

subsection \<open>Range of the encoder and the decoder, round trip\<close>

text \<open>
  C10 (encoder totality). \<open>float32ToBase64PCM16\<close> clamps every sample to \<open>[-1, 1]\<close>
  before scaling it, negative samples by 32768 and the others by 32767. Hence, for every
  input array and every sample, also one outside \<open>[-1, 1]\<close>, the truncated value lies
  in \<open>[-32768, 32767]\<close>, the reduction modulo \<open>2 ^ 16\<close> of \<open>setInt16\<close> leaves it
  unchanged (no overflow), and the string returned decodes to exactly the bytes of these
  16-bit values.
\<close>

theorem float32ToBase64PCM16_in_range:
  "- 1 \<le> clamp_sample x \<and> clamp_sample x \<le> 1
   \<and> pcm_val x = (if clamp_sample x < 0 then clamp_sample x * 32768 else clamp_sample x * 32767)
   \<and> - 32768 \<le> js_trunc (pcm_val x) \<and> js_trunc (pcm_val x) \<le> 32767
   \<and> sint (toInt16 (pcm_val x)) = js_trunc (pcm_val x)
   \<and> int16_view (pcm16_bytes xs) = map (\<lambda>x. toInt16 (pcm_val x)) xs
   \<and> atob (float32ToBase64PCM16 xs) = Inr (map fromCharCode (pcm16_bytes xs))"
proof -
  have "pcm_val x = (if clamp_sample x < 0 then clamp_sample x * 32768 else clamp_sample x * 32767)"
    by (simp add: pcm_val_def scale_sample_def)
  moreover have "sint (toInt16 (pcm_val x)) = js_trunc (pcm_val x)"
    using sint_pcm_word [of x] by (simp add: pcm_word_def)
  moreover have "int16_view (pcm16_bytes xs) = map (\<lambda>x. toInt16 (pcm_val x)) xs"
    using int16_view_pcm16_bytes [of xs] by (simp add: pcm_word_def [abs_def])
  ultimately show ?thesis
    using clamp_sample_range [of x] js_trunc_pcm_val_range [of x] atob_float32ToBase64PCM16 [of xs]
    by simp
qed

text \<open>
  C9 (decoder output range), as stated: every float produced equals the 16-bit sample
  divided by 32767. The quotient is stored in a \<open>Float32Array\<close>, which holds the 32-bit
  float nearest to it: the sample \<open>-32768\<close> (bytes \<open>00 80\<close>, base64 \<open>AIA=\<close>) decodes to
  \<open>-32769/32768\<close>, not to \<open>-32768/32767\<close>.
\<close>

lemma atob_min_sample: "atob ''AIA='' = Inr [char_of (0::nat), char_of (128::nat)]"
  by (simp add: atob_def is_ascii_whitespace_def strip_padding_def b64_index_def
      b64_alphabet_def Let_def)

lemma decode_min_sample: "base64PCM16ToFloat32 ''AIA='' = Inr [- (32769 / 32768)]"
proof -
  have "pcm_float (push_bit 8 (ucast (128 :: uint8)) OR ucast (0 :: uint8)) = - (32769 / 32768)"
    by (simp add: pcm_float_def f32_min_quotient)
  then show ?thesis
    by (simp add: base64PCM16ToFloat32_def atob_min_sample charCodeAt_def)
qed

theorem decoder_exact_quotient_counterexample:
  "base64PCM16ToFloat32 ''AIA='' = Inr [- (32769 / 32768)]
   \<and> (- (32769 / 32768) :: real) \<noteq> - 32768 / 32767"
  using decode_min_sample by simp

text \<open>
  C9, amended. Whenever \<open>base64PCM16ToFloat32\<close> returns, every float it produced is the
  32-bit float nearest to the quotient of the corresponding signed 16-bit sample by 32767
  (the quotient computed in double precision), so every output lies in
  \<open>[-32769/32768, 1]\<close>, which is inside \<open>[-32768/32767, 1]\<close>. The sample \<open>-32768\<close>
  decodes to \<open>-32769/32768\<close>, strictly below \<open>-1\<close>.
\<close>

theorem base64PCM16ToFloat32_range:
  assumes "base64PCM16ToFloat32 base64 = Inr float32"
  shows "(\<exists>binary. atob base64 = Inr binary
            \<and> float32 = map (\<lambda>w. fround (to_double (real_of_int (sint w) / 32767)))
                             (int16_view (map charCodeAt binary)))
         \<and> (\<forall>f \<in> set float32. - 32768 / 32767 \<le> f \<and> - 32769 / 32768 \<le> f \<and> f \<le> 1)
         \<and> base64PCM16ToFloat32 ''AIA='' = Inr [- (32769 / 32768)]
         \<and> (- (32769 / 32768) :: real) < - 1"
proof -
  from assms obtain binary where b: "atob base64 = Inr binary"
    and f: "float32 = map pcm_float (int16_view (map charCodeAt binary))"
    by (auto simp: base64PCM16ToFloat32_def Let_def split: sum.splits if_splits)
  have r: "- 32769 / 32768 \<le> pcm_float w \<and> pcm_float w \<le> 1" for w :: int16
  proof -
    have "- 32768 \<le> sint w" "sint w \<le> 32767"
      using sint_ge [of w] sint_lt [of w] by simp_all
    then have "- 32768 \<le> real_of_int (sint w)" "real_of_int (sint w) \<le> 32767"
      by linarith+
    then have "- (32768 / 32767) \<le> real_of_int (sint w) / 32767"
      and "real_of_int (sint w) / 32767 \<le> 1"
      by (simp_all add: field_simps)
    then have "f32 (- (32768 / 32767)) \<le> pcm_float w" and "pcm_float w \<le> f32 1"
      unfolding pcm_float_def by (simp_all only: f32_mono)
    moreover have "f32 1 = 1" using f32_fixed [of 1 1 0] by simp
    ultimately show ?thesis by (simp add: f32_min_quotient)
  qed
  have "\<forall>f \<in> set float32. - 32768 / 32767 \<le> f \<and> - 32769 / 32768 \<le> f \<and> f \<le> 1"
  proof
    fix g assume "g \<in> set float32"
    then obtain w where "g = pcm_float w" using f by auto
    then have "- 32769 / 32768 \<le> g \<and> g \<le> 1" using r by simp
    then show "- 32768 / 32767 \<le> g \<and> - 32769 / 32768 \<le> g \<and> g \<le> 1" by simp
  qed
  moreover have "float32 = map (\<lambda>w. fround (to_double (real_of_int (sint w) / 32767)))
      (int16_view (map charCodeAt binary))"
    using f by (simp add: pcm_float_def [abs_def] f32_def)
  ultimately show ?thesis using b decode_min_sample by simp
qed

lemma atob_extremes:
  "atob ''AID/fw=='' = Inr (map char_of [0, 128, 255, 127 :: nat])"
  by (simp add: atob_def is_ascii_whitespace_def strip_padding_def b64_index_def
      b64_alphabet_def Let_def)

lemma decode_extremes: "base64PCM16ToFloat32 ''AID/fw=='' = Inr [- (32769 / 32768), 1]"
proof -
  have a: "pcm_float (push_bit 8 (ucast (128 :: uint8)) OR ucast (0 :: uint8)) = - (32769 / 32768)"
    by (simp add: pcm_float_def f32_min_quotient)
  have "f32 1 = 1" using f32_fixed [of 1 1 0] by simp
  then have b: "pcm_float (push_bit 8 (ucast (127 :: uint8)) OR ucast (255 :: uint8)) = 1"
    by (simp add: pcm_float_def)
  show ?thesis
    using a b by (simp add: base64PCM16ToFloat32_def atob_extremes charCodeAt_def)
qed

theorem base64PCM16ToFloat32_range_witness:
  "base64PCM16ToFloat32 ''AID/fw=='' = Inr [- (32769 / 32768), 1]
   \<and> list_all (\<lambda>f. - 32768 / 32767 \<le> f \<and> - 32769 / 32768 \<le> f \<and> f \<le> 1)
        [- (32769 / 32768), 1 :: real]"
  using base64PCM16ToFloat32_range [OF decode_extremes] decode_extremes by simp

text \<open>
  C5 (round trip), as stated: decoding the encoding is within \<open>1/32767\<close> of the clamped
  input, and a second application of decode after encode returns the values of the first.
  The second half fails: the sample \<open>2\<^sup>-\<^sup>1\<^sup>4\<close> is stored as 1 and decoded to the 32-bit
  float nearest to \<open>1/32767\<close>, which is \<open>32769/2\<^sup>3\<^sup>0\<close> and lies below \<open>1/32767\<close>; that
  value is stored as 0 and decoded to 0.
\<close>

lemma codec_round_small: "codec_round (1 / 16384) = 32769 / 1073741824"
proof -
  have "js_trunc (pcm_val (1 / 16384)) = 1"
    by (simp add: pcm_val_def clamp_sample_def scale_sample_def js_trunc_def)
  then show ?thesis by (simp add: codec_round_quotient f32_unit_quotient)
qed

lemma codec_round_small_again: "codec_round (32769 / 1073741824) = 0"
proof -
  have "js_trunc (pcm_val (32769 / 1073741824)) = 0"
    by (simp add: pcm_val_def clamp_sample_def scale_sample_def js_trunc_def)
  then show ?thesis by (simp add: codec_round_quotient)
qed

theorem codec_idempotence_counterexample:
  "base64PCM16ToFloat32 (float32ToBase64PCM16 [1 / 16384]) = Inr [32769 / 1073741824]
   \<and> base64PCM16ToFloat32 (float32ToBase64PCM16 [32769 / 1073741824]) = Inr [0]
   \<and> (0 :: real) \<noteq> 32769 / 1073741824"
  by (simp add: decode_encode codec_round_small codec_round_small_again)

text \<open>
  C5, amended. For every sequence of 32-bit float samples, decoding the result of
  \<open>float32ToBase64PCM16\<close> with \<open>base64PCM16ToFloat32\<close> returns as many values as there
  are samples, each within \<open>1/32767\<close> of the clamped sample. (Nothing is stated about a
  second application: the pair is not idempotent.)
\<close>

theorem codec_round_trip:
  assumes "list_all is_float32 xs"
  shows "\<exists>ys. base64PCM16ToFloat32 (float32ToBase64PCM16 xs) = Inr ys
           \<and> length ys = length xs
           \<and> (\<forall>i < length xs. \<bar>ys ! i - clamp_sample (xs ! i)\<bar> \<le> 1 / 32767)"
proof -
  have "\<forall>i < length xs. \<bar>map codec_round xs ! i - clamp_sample (xs ! i)\<bar> \<le> 1 / 32767"
  proof (intro allI impI)
    fix i assume i: "i < length xs"
    then have "is_float32 (xs ! i)" using assms by (simp add: list_all_length)
    then have "\<bar>codec_round (xs ! i) - clamp_sample (xs ! i)\<bar> \<le> 1 / 32767"
      by (rule codec_round_error)
    then show "\<bar>map codec_round xs ! i - clamp_sample (xs ! i)\<bar> \<le> 1 / 32767"
      using i by simp
  qed
  then show ?thesis by (intro exI [of _ "map codec_round xs"]) (simp add: decode_encode)
qed

lemma is_float32I:
  "x = of_int m * 2 powi j \<Longrightarrow> \<bar>m\<bar> < 2 ^ 24 \<Longrightarrow> - 149 \<le> j \<Longrightarrow> j \<le> 104 \<Longrightarrow> is_float32 x"
  unfolding is_float32_def by blast

lemma float32_samples: "list_all is_float32 [1 / 16384, - 1, 3]"
proof -
  have "is_float32 (1 / 16384)" by (rule is_float32I [of _ 1 "- 14"]) (simp_all add: power_int_minus)
  moreover have "is_float32 (- 1)" by (rule is_float32I [of _ "- 1" 0]) simp_all
  moreover have "is_float32 3" by (rule is_float32I [of _ 3 0]) simp_all
  ultimately show ?thesis by simp
qed

theorem codec_round_trip_witness:
  "list_all is_float32 [1 / 16384, - 1, 3]
   \<and> base64PCM16ToFloat32 (float32ToBase64PCM16 [1 / 16384, - 1, 3])
     = Inr [32769 / 1073741824, - (32769 / 32768), 1]
   \<and> \<bar>32769 / 1073741824 - clamp_sample (1 / 16384)\<bar> \<le> (1 / 32767 :: real)
   \<and> \<bar>- (32769 / 32768) - clamp_sample (- 1)\<bar> \<le> (1 / 32767 :: real)
   \<and> \<bar>1 - clamp_sample 3\<bar> \<le> (1 / 32767 :: real)"
proof -
  have a: "codec_round (- 1) = - (32769 / 32768)"
  proof -
    have "js_trunc (pcm_val (- 1)) = - 32768"
      by (simp add: pcm_val_def clamp_sample_def scale_sample_def js_trunc_def)
    then show ?thesis by (simp add: codec_round_quotient f32_min_quotient)
  qed
  have b: "codec_round 3 = 1"
  proof -
    have "js_trunc (pcm_val 3) = 32767"
      by (simp add: pcm_val_def clamp_sample_def scale_sample_def js_trunc_def)
    moreover have "f32 1 = 1" using f32_fixed [of 1 1 0] by simp
    ultimately show ?thesis by (simp add: codec_round_quotient)
  qed
  have d: "base64PCM16ToFloat32 (float32ToBase64PCM16 [1 / 16384, - 1, 3])
      = Inr [32769 / 1073741824, - (32769 / 32768), 1]"
    by (simp add: decode_encode codec_round_small a b)
  from codec_round_trip [OF float32_samples] obtain ys
    where "base64PCM16ToFloat32 (float32ToBase64PCM16 [1 / 16384, - 1, 3]) = Inr ys"
      and "\<forall>i < length [1 / 16384, - 1, 3 :: real].
             \<bar>ys ! i - clamp_sample ([1 / 16384, - 1, 3] ! i)\<bar> \<le> 1 / 32767"
    by blast
  then have ys: "ys = [32769 / 1073741824, - (32769 / 32768), 1]"
    and e: "\<forall>i < 3. \<bar>ys ! i - clamp_sample ([1 / 16384, - 1, 3] ! i)\<bar> \<le> 1 / 32767"
    using d by simp_all
  have "\<bar>ys ! 0 - clamp_sample ([1 / 16384, - 1, 3] ! 0)\<bar> \<le> 1 / 32767"
    "\<bar>ys ! 1 - clamp_sample ([1 / 16384, - 1, 3] ! 1)\<bar> \<le> 1 / 32767"
    "\<bar>ys ! 2 - clamp_sample ([1 / 16384, - 1, 3] ! 2)\<bar> \<le> 1 / 32767"
    using e [rule_format, of 0] e [rule_format, of 1] e [rule_format, of 2] by simp_all
  then show ?thesis using float32_samples d unfolding ys by simp
qed

section \<open>Properties of the voice activity detection\<close>

lemma sqrt_gt_iff: "0 \<le> t \<Longrightarrow> (sqrt y > t) = (y > t * t)"
proof -
  assume t: "0 \<le> t"
  have "sqrt (t * t) = t" using t by (simp add: real_sqrt_mult)
  then have "(sqrt y > t) = (sqrt y > sqrt (t * t))" by simp
  then show ?thesis by (simp only: real_sqrt_less_iff)
qed

lemma sqrt_lt_iff: "0 \<le> t \<Longrightarrow> (sqrt y < t) = (y < t * t)"
proof -
  assume t: "0 \<le> t"
  have "sqrt (t * t) = t" using t by (simp add: real_sqrt_mult)
  then have "(sqrt y < t) = (sqrt y < sqrt (t * t))" by simp
  then show ?thesis by (simp only: real_sqrt_less_iff)
qed

lemma is_speech_iff:
  "is_speech xs = (xs \<noteq> [] \<and> sum_squares xs / real (length xs) > 4 / 10000)"
proof (cases "xs = []")
  case True
  then show ?thesis by (simp add: is_speech_def rms_def)
next
  case False
  have "is_speech xs = (sqrt (sum_squares xs / real (length xs)) > 2 / 100)"
    using False by (simp only: is_speech_def rms_def SPEECH_THRESHOLD_def if_False js_gt.simps)
  also have "\<dots> = (sum_squares xs / real (length xs) > (2 / 100) * (2 / 100))"
    by (rule sqrt_gt_iff) simp
  also have "(2 / 100) * (2 / 100) = (4 / 10000 :: real)" by simp
  finally show ?thesis using False by simp
qed

lemma is_silence_iff:
  "is_silence xs = (xs \<noteq> [] \<and> sum_squares xs / real (length xs) < 1 / 10000)"
proof (cases "xs = []")
  case True
  then show ?thesis by (simp add: is_silence_def rms_def)
next
  case False
  have "is_silence xs = (sqrt (sum_squares xs / real (length xs)) < 1 / 100)"
    using False by (simp only: is_silence_def rms_def SILENCE_THRESHOLD_def if_False js_lt.simps)
  also have "\<dots> = (sum_squares xs / real (length xs) < (1 / 100) * (1 / 100))"
    by (rule sqrt_lt_iff) simp
  also have "(1 / 100) * (1 / 100) = (1 / 10000 :: real)" by simp
  finally show ?thesis using False by simp
qed

lemma vad_run_snoc: "vad_run (tr @ [(now, e)]) s = fst (vad_step now e (vad_run tr s))"
  by (induction tr arbitrary: s) auto

lemma silence_since_extend:
  "silence_since tr t0 \<Longrightarrow> \<not> breaks_silence e \<Longrightarrow> silence_since (tr @ [(now, e)]) t0"
  unfolding silence_since_def
  by (elim exE conjE) (rule_tac x = pre in exI, rule_tac x = xs in exI,
      rule_tac x = "post @ [(now, e)]" in exI, simp)

lemma silence_since_start: "is_silence xs \<Longrightarrow> silence_since (tr @ [(now, Frame xs)]) now"
  unfolding silence_since_def
  by (rule_tac x = tr in exI, rule_tac x = xs in exI, rule_tac x = "[]" in exI) simp

lemma vad_step_silence_start:
  assumes "silenceStartTime (fst (vad_step now e s)) \<noteq> 0"
  shows "(silenceStartTime (fst (vad_step now e s)) = silenceStartTime s \<and> \<not> breaks_silence e)
         \<or> (silenceStartTime (fst (vad_step now e s)) = now
             \<and> (\<exists>xs. e = Frame xs \<and> is_silence xs))"
proof (cases e)
  case (Frame xs)
  then show ?thesis
    using assms
    by (auto simp: processVAD_def Let_def is_speech_def is_silence_def split: if_splits)
next
  case SilenceTimer
  then show ?thesis
    using assms
    by (auto simp: silenceTimeout_def Let_def split: option.splits if_splits)
next
  case Reset
  then show ?thesis using assms by (simp add: resetVADState_def)
qed

lemma vad_silence_history:
  "silenceStartTime (vad_run tr vad_init) \<noteq> 0 \<Longrightarrow>
     silence_since tr (silenceStartTime (vad_run tr vad_init))"
proof (induction tr rule: rev_induct)
  case Nil
  then show ?case by (simp add: vad_init_def)
next
  case (snoc p tr)
  obtain now e where p: "p = (now, e)" by (cases p)
  let ?s = "vad_run tr vad_init"
  have nz: "silenceStartTime (fst (vad_step now e ?s)) \<noteq> 0"
    using snoc.prems by (simp add: p vad_run_snoc)
  from vad_step_silence_start [OF nz] show ?case
  proof
    assume a: "silenceStartTime (fst (vad_step now e ?s)) = silenceStartTime ?s
        \<and> \<not> breaks_silence e"
    then have "silenceStartTime ?s \<noteq> 0" using nz by simp
    then have "silence_since tr (silenceStartTime ?s)" by (rule snoc.IH)
    then have "silence_since (tr @ [(now, e)]) (silenceStartTime ?s)"
      using a by (simp add: silence_since_extend)
    then show ?thesis using a by (simp add: p vad_run_snoc)
  next
    assume a: "silenceStartTime (fst (vad_step now e ?s)) = now
        \<and> (\<exists>xs. e = Frame xs \<and> is_silence xs)"
    then obtain xs where e: "e = Frame xs" and x: "is_silence xs" by blast
    have "silence_since (tr @ [(now, Frame xs)]) now" using x by (rule silence_since_start)
    then show ?thesis using a e by (simp add: p vad_run_snoc)
  qed
qed

lemma speech_end_step:
  assumes "SpeechEnd \<in> set (snd (vad_step t e s))"
  shows "e = SilenceTimer \<and> isSpeaking s \<and> silenceStartTime s > 0
         \<and> silenceStartTime s + 1500 \<le> t"
proof (cases e)
  case (Frame xs)
  then show ?thesis using assms by (auto simp: processVAD_def Let_def split: if_splits)
next
  case SilenceTimer
  then show ?thesis
    using assms
    by (auto simp: silenceTimeout_def SILENCE_DURATION_def Let_def split: option.splits if_splits)
next
  case Reset
  then show ?thesis using assms by simp
qed

lemma silence_since_has_silence:
  "silence_since tr t0 \<Longrightarrow> list_ex (\<lambda>p. case snd p of Frame xs \<Rightarrow> is_silence xs | _ \<Rightarrow> False) tr"
  unfolding silence_since_def list_ex_iff by auto

lemmas vad_eval =
  vad_init_def processVAD_def silenceTimeout_def resetVADState_def is_speech_iff [unfolded is_speech_def]
  is_silence_iff [unfolded is_silence_def] SILENCE_DURATION_def sum_squares_def Let_def

text \<open>
  C1 (hysteresis), as stated: no speech-end before the RMS has been below the silence
  threshold continuously for 1500 ms. The frame at 1100 ms is silent and arms the timer;
  the frame at 1300 ms is in the dead zone (RMS 0.015), which neither clears the timer nor
  the start of the silence; the timer falls due at 2600 ms and speech-end is emitted,
  although the RMS was not below the silence threshold 1300 ms earlier.
\<close>

theorem speech_end_through_dead_zone_counterexample:
  "SpeechEnd \<in> set (snd (vad_step 2600 SilenceTimer
       (vad_run [(1000, Frame [1 / 2]), (1100, Frame [0]), (1300, Frame [3 / 200])] vad_init)))
   \<and> \<not> is_silence [3 / 200] \<and> \<not> is_speech [3 / 200]
   \<and> (2600 :: int) - 1500 \<le> 1300 \<and> (1300 :: int) \<le> 2600"
proof -
  have "vad_run [(1000, Frame [1 / 2]), (1100, Frame [0]), (1300, Frame [3 / 200])] vad_init
      = \<lparr>isSpeaking = True, silenceStartTime = 1100, silenceTimer = Some 2600\<rparr>"
    by (simp add: vad_eval)
  then show ?thesis
    by (simp add: silenceTimeout_def SILENCE_DURATION_def is_speech_iff is_silence_iff
        sum_squares_def)
qed

text \<open>
  C1, amended. Whenever a speech-end is emitted, it is emitted by the silence timer while
  the detector is in the speaking state, a frame with RMS below the silence threshold was
  processed at least 1500 ms earlier, and since that frame no frame has exceeded the
  speech threshold (and no reset occurred): frames in the dead zone neither start nor
  interrupt the count. In particular, as long as no frame has been below the silence
  threshold, dips into the dead zone produce no speech-end.
\<close>

theorem speech_end_hysteresis:
  "(SpeechEnd \<in> set (snd (vad_step t e (vad_run tr vad_init))) \<longrightarrow>
      e = SilenceTimer \<and> isSpeaking (vad_run tr vad_init)
      \<and> (\<exists>pre t0 xs post. tr = pre @ (t0, Frame xs) # post \<and> is_silence xs
            \<and> t0 + 1500 \<le> t \<and> list_all (\<lambda>p. \<not> breaks_silence (snd p)) post))
   \<and> (\<not> list_ex (\<lambda>p. case snd p of Frame xs \<Rightarrow> is_silence xs | _ \<Rightarrow> False) tr \<longrightarrow>
      SpeechEnd \<notin> set (snd (vad_step t e (vad_run tr vad_init))))"
proof -
  let ?s = "vad_run tr vad_init"
  have main: "e = SilenceTimer \<and> isSpeaking ?s \<and> silence_since tr (silenceStartTime ?s)
      \<and> silenceStartTime ?s + 1500 \<le> t"
    if h: "SpeechEnd \<in> set (snd (vad_step t e ?s))"
  proof -
    from speech_end_step [OF h] have e: "e = SilenceTimer" and sp: "isSpeaking ?s"
      and pos: "silenceStartTime ?s > 0" and d: "silenceStartTime ?s + 1500 \<le> t"
      by simp_all
    from pos have "silenceStartTime ?s \<noteq> 0" by simp
    then have "silence_since tr (silenceStartTime ?s)" by (rule vad_silence_history)
    with e sp d show ?thesis by simp
  qed
  have first: "e = SilenceTimer \<and> isSpeaking ?s
      \<and> (\<exists>pre t0 xs post. tr = pre @ (t0, Frame xs) # post \<and> is_silence xs
            \<and> t0 + 1500 \<le> t \<and> list_all (\<lambda>p. \<not> breaks_silence (snd p)) post)"
    if h: "SpeechEnd \<in> set (snd (vad_step t e ?s))"
    using main [OF h] unfolding silence_since_def by blast
  have second: "list_ex (\<lambda>p. case snd p of Frame xs \<Rightarrow> is_silence xs | _ \<Rightarrow> False) tr"
    if h: "SpeechEnd \<in> set (snd (vad_step t e ?s))"
    using main [OF h] silence_since_has_silence by blast
  show ?thesis using first second by blast
qed

theorem speech_end_hysteresis_witness:
  "SpeechEnd \<in> set (snd (vad_step 2700 SilenceTimer
       (vad_run [(1000, Frame [1 / 2]), (1100, Frame [3 / 200]), (1200, Frame [0]),
                 (1900, Frame [1 / 1000])] vad_init)))
   \<and> is_silence [0] \<and> (1200 :: int) + 1500 \<le> 2700
   \<and> \<not> list_ex (\<lambda>p. case snd p of Frame xs \<Rightarrow> is_silence xs | _ \<Rightarrow> False)
          [(1000, Frame [1 / 2]), (1100, Frame [3 / 200])]
   \<and> SpeechEnd \<notin> set (snd (vad_step 2700 SilenceTimer
       (vad_run [(1000, Frame [1 / 2]), (1100, Frame [3 / 200])] vad_init)))"
proof -
  have r: "vad_run [(1000, Frame [1 / 2]), (1100, Frame [3 / 200]), (1200, Frame [0]),
                 (1900, Frame [1 / 1000])] vad_init
      = \<lparr>isSpeaking = True, silenceStartTime = 1200, silenceTimer = Some 2700\<rparr>"
    by (simp add: vad_eval)
  have a: "SpeechEnd \<in> set (snd (vad_step 2700 SilenceTimer
       (vad_run [(1000, Frame [1 / 2]), (1100, Frame [3 / 200]), (1200, Frame [0]),
                 (1900, Frame [1 / 1000])] vad_init)))"
    unfolding r by (simp add: silenceTimeout_def SILENCE_DURATION_def)
  have b: "\<not> list_ex (\<lambda>p. case snd p of Frame xs \<Rightarrow> is_silence xs | _ \<Rightarrow> False)
          [(1000, Frame [1 / 2]), (1100, Frame [3 / 200])]"
    by (simp add: is_silence_iff sum_squares_def)
  have c: "is_silence [0]" by (simp add: is_silence_iff sum_squares_def)
  from speech_end_hysteresis [of 2700 SilenceTimer "[(1000, Frame [1 / 2]), (1100, Frame [3 / 200])]"] b
  have "SpeechEnd \<notin> set (snd (vad_step 2700 SilenceTimer
       (vad_run [(1000, Frame [1 / 2]), (1100, Frame [3 / 200])] vad_init)))"
    by blast
  with a b c show ?thesis by simp
qed

section \<open>Properties of the playback scheduling\<close>

lemma playNextChunk_schedule:
  assumes "audioContext p" and "playbackQueue p = chunk # rest"
  shows "started (playNextChunk currentTime p)
           = started p @ [(max currentTime (nextPlayTime p), duration chunk)]
         \<and> nextPlayTime (playNextChunk currentTime p)
           = max currentTime (nextPlayTime p) + duration chunk
         \<and> currentTime \<le> max currentTime (nextPlayTime p)"
  using assms by (simp add: playNextChunk_def Let_def)

lemma enqueue_while_playing:
  "isPlaying p \<Longrightarrow> enqueue currentTime chunk p = p\<lparr>playbackQueue := playbackQueue p @ [chunk]\<rparr>"
  by (simp add: enqueue_def Let_def)

text \<open>
  C6 (gapless playback), evaluated. A chunk of one second is queued at clock 0 and starts
  at 0, so it ends at 1. A chunk of half a second arrives at clock 0.1, well before the
  first one ends; it is only queued, because a chunk is handed to the audio graph when the
  previous one has ended. The \<open>onended\<close> handler runs at clock 1.05 and starts it at
  \<open>max 1.05 1 = 1.05\<close>: a gap of 0.05 s, where back-to-back playback starts it at 1.
\<close>

theorem playback_gap_when_onended_is_late:
  "started (onended (105 / 100)
      (enqueue (1 / 10) (replicate 12000 0)
         (enqueue 0 (replicate 24000 0) (playback_init\<lparr>audioContext := True\<rparr>))))
   = [(0, 1), (105 / 100, 1 / 2)]
   \<and> nextPlayTime (enqueue (1 / 10) (replicate 12000 0)
         (enqueue 0 (replicate 24000 0) (playback_init\<lparr>audioContext := True\<rparr>))) = 1"
  by (simp add: onended_def enqueue_def playNextChunk_def playback_init_def duration_def
      SAMPLE_RATE_def Let_def)

section \<open>Properties of the relay\<close>

lemma query_get_absent: "k \<notin> fst ` set query \<Longrightarrow> query_get query k = Undefined"
proof -
  assume "k \<notin> fst ` set query"
  then have "filter (\<lambda>p. fst p = k) query = []"
    by (auto simp: filter_empty_conv)
  then show ?thesis by (simp add: query_get_def)
qed

lemma relay_event_requests:
  "upstreamRequests (relay_event e c) = upstreamRequests c \<and> handlers (relay_event e c) = handlers c"
  by (cases e) (simp_all add: relay_event_def Let_def)

lemma relay_run_requests: "upstreamRequests (relay_run es c) = upstreamRequests c"
  unfolding relay_run_def
  by (induction es arbitrary: c) (simp_all add: relay_event_requests)

lemma relay_event_unregistered:
  "\<not> handlers c \<Longrightarrow> clientCloseCalls (relay_event e c) = clientCloseCalls c"
  by (cases e) (simp_all add: relay_event_def Let_def)

lemma relay_run_unregistered:
  "\<not> handlers c \<Longrightarrow> clientCloseCalls (relay_run es c) = clientCloseCalls c"
  unfolding relay_run_def
  by (induction es arbitrary: c) (simp_all add: relay_event_unregistered relay_event_requests)

text \<open>
  C8 (missing credential). When the query of an inbound connection has no \<open>apiKey\<close>
  parameter, the relay closes that connection with code 4001 and reason
  \<open>Missing API Key\<close>, requests no upstream socket, and registers no handler: whatever
  events follow, no upstream socket is ever requested and no other close is issued.
\<close>

theorem missing_api_key:
  assumes "''apiKey'' \<notin> fst ` set query"
  shows "clientCloseCalls (on_connection query) = [(4001, ''Missing API Key'')]
         \<and> upstreamRequests (on_connection query) = []
         \<and> upstreamRequests (relay_run es (on_connection query)) = []
         \<and> clientCloseCalls (relay_run es (on_connection query)) = [(4001, ''Missing API Key'')]"
proof -
  have u: "query_get query ''apiKey'' = Undefined"
    using assms by (rule query_get_absent)
  then have c: "on_connection query
      = new_conn\<lparr>clientCloseCalls := [(4001, ''Missing API Key'')], clientOpen := False\<rparr>"
    by (simp add: on_connection_def Let_def)
  then have h: "\<not> handlers (on_connection query)"
    and r: "upstreamRequests (on_connection query) = []"
    and k: "clientCloseCalls (on_connection query) = [(4001, ''Missing API Key'')]"
    by (simp_all add: new_conn_def)
  show ?thesis
    using r k relay_run_requests [of es "on_connection query"]
      relay_run_unregistered [OF h, of es]
    by simp
qed

theorem missing_api_key_witness:
  "''apiKey'' \<notin> fst ` set [(''model'', ''abab6.5s-chat'')]
   \<and> clientCloseCalls (on_connection [(''model'', ''abab6.5s-chat'')])
        = [(4001, ''Missing API Key'')]
   \<and> upstreamRequests
        (relay_run [ClientMessage ''{}'', ClientClose] (on_connection [(''model'', ''abab6.5s-chat'')]))
        = []"
proof -
  have h: "''apiKey'' \<notin> fst ` set [(''model'', ''abab6.5s-chat'')]" by simp
  from missing_api_key [OF h, of "[ClientMessage ''{}'', ClientClose]"] h
  show ?thesis by blast
qed

section \<open>Properties of the transport session\<close>

subsection \<open>Reconnection\<close>

lemma connect_keeps:
  "reconnectAttempts (connect s) = reconnectAttempts s
   \<and> manualDisconnect (connect s) = manualDisconnect s
   \<and> scheduledReconnects (connect s) = scheduledReconnects s"
  by (simp add: connect_def)








lemma disconnect_sets_manual:
  "manualDisconnect (disconnect s) \<and> heartbeatInterval (disconnect s) = None
   \<and> \<not> rtConnected (disconnect s)
   \<and> scheduledReconnects (disconnect s) = scheduledReconnects s
   \<and> length (sockets (disconnect s)) = length (sockets s)"
  by (simp add: disconnect_def stopHeartbeat_def Let_def split: option.splits)



lemmas rt_eval =
  rt_new_def connect_def disconnect_def onopen_def onclose_def handleServerEvent_def
  initSession_def send_def startHeartbeat_def stopHeartbeat_def heartbeat_tick_def
  set_ready_def maxReconnectAttempts_def HEARTBEAT_INTERVAL_def Let_def



subsection \<open>Heartbeat\<close>

lemma disconnect_stops_heartbeat: "heartbeatInterval (disconnect s) = None"
  by (simp add: disconnect_sets_manual)

lemma heartbeat_tick_wire:
  "wire (heartbeat_tick s)
   = (if rtConnected s \<and> (\<exists>i. ws s = Some i \<and> i < length (sockets s) \<and> sockets s ! i = OPEN)
      then wire s @ [(the (ws s), TaskContinue)] else wire s)"
  by (auto simp: heartbeat_tick_def send_def split: option.splits)

lemma proxy_connected_starts_heartbeat:
  "heartbeatInterval (handleServerEvent now ProxyConnectedEvent s) = Some (now + 60000)
   \<and> rtConnected (handleServerEvent now ProxyConnectedEvent s)"
  by (simp add: handleServerEvent_def initSession_def send_def startHeartbeat_def
      stopHeartbeat_def HEARTBEAT_INTERVAL_def Let_def split: option.splits)

lemma session_update_wire:
  "((i, TaskContinue) \<in> set (wire (send SessionUpdate s))) = ((i, TaskContinue) \<in> set (wire s))"
  by (auto simp: send_def split: option.splits)

lemma keep_alive_needs_ready:
  assumes "(i, TaskContinue) \<in> set (wire (rt_step now e s))"
  shows "(i, TaskContinue) \<in> set (wire s)
         \<or> (e = HeartbeatTimer \<and> rtConnected s \<and> heartbeatInterval s \<noteq> None)"
proof (cases e)
  case Connect
  then show ?thesis using assms by (simp add: connect_def split: if_splits)
next
  case Disconnect
  then show ?thesis
    using assms by (simp add: disconnect_def stopHeartbeat_def Let_def split: option.splits)
next
  case (SocketOpen j)
  then show ?thesis
    using assms
    by (simp add: onopen_def initSession_def set_ready_def session_update_wire Let_def
        split: if_splits)
next
  case (SocketMessage j ev)
  then show ?thesis
    using assms
    by (cases ev) (simp_all add: handleServerEvent_def initSession_def startHeartbeat_def
        stopHeartbeat_def session_update_wire Let_def split: if_splits)
next
  case (SocketError j)
  then show ?thesis using assms by simp
next
  case (SocketClose j)
  then show ?thesis
    using assms by (simp add: onclose_def set_ready_def Let_def split: if_splits)
next
  case ReconnectTimer
  then show ?thesis using assms by (simp add: connect_def split: option.splits if_splits)
next
  case HeartbeatTimer
  then show ?thesis
    using assms
    by (auto simp: heartbeat_tick_def send_def split: option.splits if_splits)
qed

text \<open>
  C4 (heartbeat cadence), evaluated. Through the relay the session becomes ready with
  \<open>proxy.connected\<close>, which starts the interval timer, and a keep-alive is written at
  each interval. Connected directly (\<open>useProxy\<close> false) the session becomes ready in
  \<open>onopen\<close>, which does everything the other path does except starting the timer: the
  session is ready, no timer is armed, and no keep-alive is written at any interval.
\<close>

theorem heartbeat_missing_when_direct:
  "rt_run [(0, Connect), (10, SocketOpen 0), (20, SocketMessage 0 ProxyConnectedEvent),
           (60020, HeartbeatTimer), (120020, HeartbeatTimer)] (rt_new True)
   = \<lparr>useProxy = True, ws = Some 0, sockets = [OPEN], rtConnected = True,
      reconnectAttempts = 0, manualDisconnect = False, heartbeatInterval = Some 180020,
      reconnectTimers = [],
      wire = [(0, SessionUpdate), (0, TaskContinue), (0, TaskContinue)],
      scheduledReconnects = [], notices = [OnConnected]\<rparr>
   \<and> rt_run [(0, Connect), (10, SocketOpen 0),
           (60010, HeartbeatTimer), (120010, HeartbeatTimer)] (rt_new False)
   = \<lparr>useProxy = False, ws = Some 0, sockets = [OPEN], rtConnected = True,
      reconnectAttempts = 0, manualDisconnect = False, heartbeatInterval = None,
      reconnectTimers = [], wire = [(0, SessionUpdate)],
      scheduledReconnects = [], notices = [OnConnected]\<rparr>"
  by (simp add: rt_eval)

section \<open>Properties of the turn-taking coordinator\<close>

subsection \<open>The interruption flag\<close>

lemma fold_vad_signals_flag:
  "isInterrupted s \<Longrightarrow> isInterrupted (fold on_vad_signal signals s)"
proof (induction signals arbitrary: s)
  case Nil
  then show ?case by simp
next
  case (Cons g signals)
  have "isInterrupted (on_vad_signal g s)"
    using Cons.prems by (cases g) (simp_all add: handleSpeechStart_def handleSpeechEnd_def Let_def)
  then show ?case using Cons.IH by simp
qed

lemma run_vad_flag: "isInterrupted s \<Longrightarrow> isInterrupted (run_vad now e s)"
  by (simp add: run_vad_def fold_vad_signals_flag split: prod.splits)

lemma setError_flag [simp]: "isInterrupted (setError now v s) = isInterrupted s"
  by (simp add: setError_def)

lemma startListening_flag: "isInterrupted (startListening now capture s) = isInterrupted s"
  by (simp add: startListening_def Let_def split: capture_result.splits)

lemma handleConnect_flag: "isInterrupted (handleConnect now conn s) = isInterrupted s"
  by (simp add: handleConnect_def onConnected_def Let_def split: connect_result.splits)

lemma handleVoiceInput_flag:
  "isInterrupted s \<Longrightarrow> isInterrupted (handleVoiceInput now conn capture s)"
  by (simp add: handleVoiceInput_def Let_def handleConnect_flag startListening_flag
      interrupt_response_def stopListening_def)

lemma flag_cleared_only_by:
  assumes "isInterrupted s" and "\<not> isInterrupted (app_step now clock e s)"
  shows "e = ServerResponseCreated
         \<or> (\<exists>capture. e = DrainPoll capture \<and> 0 < drainPolls s \<and> \<not> isPlaying (player s))"
proof (cases e)
  case (MicFrame inputData)
  then show ?thesis
    using assms run_vad_flag [OF assms(1), of now "Frame inputData"]
    by (simp add: onaudioprocess_def Let_def split: if_splits)
next
  case VadTimer
  then show ?thesis using assms run_vad_flag [OF assms(1), of now SilenceTimer] by simp
next
  case (DrainPoll capture)
  then show ?thesis
    using assms
    by (auto simp: checkPlaybackDone_def startListening_flag Let_def split: if_splits)
next
  case (ClickVoice conn capture)
  then show ?thesis using assms handleVoiceInput_flag [OF assms(1), of now conn capture] by simp
qed (use assms in \<open>simp_all add: onTextDelta_def onTextDone_def onAudioDelta_def onAudioDone_def
      onUserTranscript_def onError_def onDisconnected_def handleInterrupt_def
      handleDisconnect_def stopListening_def Let_def split: if_splits option.splits\<close>)

lemmas app_eval =
  app_init_def setError_def startListening_def stopListening_def handleSpeechEnd_def handleSpeechStart_def
  onConnected_def onDisconnected_def onUserTranscript_def onResponseStart_def onTextDelta_def
  onTextDone_def onAudioDelta_def onAudioDone_def checkPlaybackDone_def onError_def
  handleConnect_def handleDisconnect_def interrupt_response_def handleVoiceInput_def
  handleInterrupt_def run_vad_def onaudioprocess_def Let_def

text \<open>
  C2 (stale-event suppression), as stated: after a barge-in the deltas are dropped until
  the next response-created event, which alone clears the flag. In the run below the
  assistant is responding in conversation mode, a loud frame triggers the barge-in, and
  the text delta that follows is dropped. Then the trailing audio-done event of the
  interrupted response arrives, its poll finds the player idle and clears the flag, and
  the next text delta of the same response is shown, with no response-created in between.
\<close>

theorem stale_delta_after_drain_poll_counterexample:
  "isInterrupted (app_run barge_in_run app_init)
   \<and> streamingText (app_run (barge_in_run @ [(5300, 53 / 10, ServerTextDelta ''lo'')]) app_init) = ''''
   \<and> \<not> isInterrupted (app_run (barge_in_run
         @ [(5400, 54 / 10, ServerAudioDone), (5600, 56 / 10, DrainPoll CaptureOk)]) app_init)
   \<and> streamingText (app_run (barge_in_run
         @ [(5400, 54 / 10, ServerAudioDone), (5600, 56 / 10, DrainPoll CaptureOk),
            (5700, 57 / 10, ServerTextDelta ''lo'')]) app_init) = ''lo''"
  by (simp add: barge_in_run_def app_eval vad_eval stopPlayback_def playback_init_def)

text \<open>
  C2, amended. The barge-in (speech start while the assistant responds) and the manual
  interrupt set the flag. While the flag is set, a text delta and an audio delta leave the
  whole state unchanged: no text is accumulated and nothing reaches the player. Handling
  response-created clears the flag; the only other event that clears it is the poll armed
  by an audio-done event, when it finds the player idle.
\<close>

theorem stale_events_suppressed:
  "(isResponding s \<longrightarrow> isInterrupted (handleSpeechStart s))
   \<and> isInterrupted (app_step now clock ClickInterrupt s)
   \<and> (isInterrupted s \<longrightarrow>
        app_step now clock (ServerTextDelta delta) s = s
        \<and> app_step now clock (ServerAudioDelta audioBase64) s = s)
   \<and> \<not> isInterrupted (app_step now clock ServerResponseCreated s)
   \<and> (isInterrupted s \<and> \<not> isInterrupted (app_step now clock e s) \<longrightarrow>
        e = ServerResponseCreated
        \<or> (\<exists>capture. e = DrainPoll capture \<and> 0 < drainPolls s \<and> \<not> isPlaying (player s)))"
proof -
  have "isResponding s \<longrightarrow> isInterrupted (handleSpeechStart s)"
    by (simp add: handleSpeechStart_def Let_def)
  moreover have "isInterrupted (app_step now clock ClickInterrupt s)"
    by (simp add: handleInterrupt_def)
  moreover have "isInterrupted s \<longrightarrow>
        app_step now clock (ServerTextDelta delta) s = s
        \<and> app_step now clock (ServerAudioDelta audioBase64) s = s"
    by (simp add: onTextDelta_def onAudioDelta_def)
  moreover have "\<not> isInterrupted (app_step now clock ServerResponseCreated s)"
    by (simp add: onResponseStart_def)
  ultimately show ?thesis using flag_cleared_only_by [of s now clock e] by blast
qed

theorem stale_events_suppressed_witness:
  "isInterrupted (app_run barge_in_run app_init)
   \<and> app_step 5300 (53 / 10) (ServerTextDelta ''lo'') (app_run barge_in_run app_init)
     = app_run barge_in_run app_init
   \<and> app_step 5300 (53 / 10) (ServerAudioDelta ''AAA='') (app_run barge_in_run app_init)
     = app_run barge_in_run app_init
   \<and> streamingText (app_run barge_in_run app_init) = ''''
   \<and> \<not> isInterrupted (app_step 5300 (53 / 10) ServerResponseCreated (app_run barge_in_run app_init))"
proof -
  have i: "isInterrupted (app_run barge_in_run app_init)"
    and t: "streamingText (app_run barge_in_run app_init) = ''''"
    by (simp_all add: barge_in_run_def app_eval vad_eval stopPlayback_def playback_init_def)
  from stale_events_suppressed [of "app_run barge_in_run app_init" 5300 "53 / 10" "''lo''" "''AAA=''"
      ServerResponseCreated] i t
  show ?thesis by blast
qed

subsection \<open>Failure of the microphone capture\<close>

text \<open>
  C7 (capture failure): when the capture fails, the error is to be shown, the
  conversation-mode flag is to keep the value it had, the listening flag stays false, and
  the capture is not to be retried. In \<open>capture_denied_run\<close> the voice button is pressed in
  the initial state and the microphone is refused. \<open>startListening\<close> sets the error, and on
  its own leaves it set with the timer armed; but \<open>handleVoiceInput\<close> goes on to
  \<open>setError(null)\<close>, so after the handler no error is set and no timer is pending: the
  failure is never shown. The conversation-mode flag, which was off, is on; the listening
  flag is off; \<open>startCapture\<close> has been called once. When an audio-done event arrives
  afterwards, its poll finds conversation mode on without listening and calls
  \<open>startCapture\<close> a second time; the error of that second failure stays set.
\<close>

theorem capture_failure_not_surfaced:
  "error (app_run capture_denied_run app_init) = None
   \<and> errorTimer (app_run capture_denied_run app_init) = None
   \<and> \<not> isConversationMode app_init
   \<and> isConversationMode (app_run capture_denied_run app_init)
   \<and> \<not> isListening (app_run capture_denied_run app_init)
   \<and> captureCalls (app_run capture_denied_run app_init) = 1
   \<and> error (startListening 0 (CaptureFails ''Permission denied'') (app_init\<lparr>rtReady := True\<rparr>))
       = Some (MicrophoneError ''Permission denied'')
   \<and> errorTimer (startListening 0 (CaptureFails ''Permission denied'') (app_init\<lparr>rtReady := True\<rparr>))
       = Some 5000
   \<and> captureCalls (app_run (capture_denied_run @ capture_denied_poll) app_init) = 2
   \<and> error (app_run (capture_denied_run @ capture_denied_poll) app_init)
       = Some (MicrophoneError ''Permission denied'')
   \<and> errorTimer (app_run (capture_denied_run @ capture_denied_poll) app_init) = Some 6200"
  by (simp add: capture_denied_run_def capture_denied_poll_def app_eval playback_init_def)

end
